theory Spec2Isabelle
  imports Complex_Main "HOL-Library.Multiset"
begin

section \<open>Python values used by \<open>similarity_calculator.py\<close>\<close>

text \<open>
  Errors are values. \<open>IndexError\<close> is raised by \<open>self.bm25_id_map[i]\<close> out of range,
  \<open>ZeroDivisionError\<close> by \<open>/\<close> with a zero divisor, \<open>ValueError\<close> by \<open>max\<close> and \<open>min\<close> of
  an empty sequence, and \<open>LibraryError\<close> stands for whatever the constructor of the
  external BM25 model raises on a corpus it rejects.
\<close>

datatype error = IndexError | ZeroDivisionError | ValueError | LibraryError

text \<open>
  A Python \<open>dict\<close> is an association list in insertion order; a well-formed one has
  distinct keys. \<open>d.get(k, dflt)\<close>, \<open>d.keys()\<close>, \<open>d.values()\<close> and \<open>d.items()\<close>
  (the list itself) are read off it.
\<close>

type_synonym ('k, 'v) dict = "('k \<times> 'v) list"

definition dict_wf :: "('k, 'v) dict \<Rightarrow> bool" where
  "dict_wf d = distinct (map fst d)"

definition dict_keys :: "('k, 'v) dict \<Rightarrow> 'k list" where
  "dict_keys d = map fst d"

definition dict_values :: "('k, 'v) dict \<Rightarrow> 'v list" where
  "dict_values d = map snd d"

definition dict_get :: "('k, 'v) dict \<Rightarrow> 'k \<Rightarrow> 'v \<Rightarrow> 'v" where
  "dict_get d k dflt = (case map_of d k of None \<Rightarrow> dflt | Some v \<Rightarrow> v)"

subsection \<open>Strings\<close>

text \<open>
  Strings are byte strings restricted to ASCII: \<open>str.lower\<close> maps \<open>A\<close>..\<open>Z\<close> (codes 65
  to 90) to \<open>a\<close>..\<open>z\<close>, which adds 32, that is, sets bit 5 of the code; the whitespace
  of \<open>str.split()\<close> is the ASCII whitespace of \<open>str.isspace\<close> (codes 9 to 13 and 28
  to 32).
\<close>

definition lower_char :: "char \<Rightarrow> char" where
  "lower_char c =
     (let n = (of_char c :: nat)
      in if 65 \<le> n \<and> n \<le> 90
         then (case c of Char b0 b1 b2 b3 b4 b5 b6 b7 \<Rightarrow> Char b0 b1 b2 b3 b4 True b6 b7)
         else c)"

definition lower :: "string \<Rightarrow> string" where
  "lower s = map lower_char s"

definition is_space :: "char \<Rightarrow> bool" where
  "is_space c = (let n = (of_char c :: nat) in (9 \<le> n \<and> n \<le> 13) \<or> (28 \<le> n \<and> n \<le> 32))"

text \<open>\<open>s.split()\<close>: maximal runs of non-whitespace characters, in order.\<close>

fun split_acc :: "string \<Rightarrow> string \<Rightarrow> string list" where
  "split_acc cur [] = (if cur = [] then [] else [cur])"
| "split_acc cur (c # cs) =
     (if is_space c then (if cur = [] then split_acc [] cs else cur # split_acc [] cs)
      else split_acc (cur @ [c]) cs)"

definition split :: "string \<Rightarrow> string list" where
  "split s = split_acc [] s"

subsection \<open>Floats\<close>

text \<open>
  A Python \<open>float\<close> is an IEEE 754 binary64 number. It is modelled by the real number
  it denotes, and every arithmetic operation rounds its exact result to the nearest
  number with a 53 bit significand, ties to even (\<open>fl\<close>). The exponent range is not
  bounded: infinities, NaN, subnormal numbers and the \<open>OverflowError\<close> of converting an
  \<open>int\<close> of \<open>2\<^sup>1\<^sup>0\<^sup>2\<^sup>4\<close> or more are outside the model.
\<close>

definition round_half_even :: "real \<Rightarrow> int" where
  "round_half_even x =
     (let f = \<lfloor>x\<rfloor>; r = x - of_int f
      in if r < 1 / 2 then f else if 1 / 2 < r then f + 1 else if even f then f else f + 1)"

text \<open>The exponent of the unit in the last place of the binade that holds \<open>x\<close>.\<close>

definition ulp_exp :: "real \<Rightarrow> int" where
  "ulp_exp x = \<lfloor>log 2 \<bar>x\<bar>\<rfloor> - 52"

definition fl :: "real \<Rightarrow> real" where
  "fl x =
     (if x = 0 then 0
      else sgn x * of_int (round_half_even (\<bar>x\<bar> / 2 powr of_int (ulp_exp x)))
             * 2 powr of_int (ulp_exp x))"

text \<open>
  \<open>float(n)\<close> for an \<open>int\<close>, as done implicitly by \<open>math.sqrt\<close> and by \<open>int / float\<close>.
  Python raises \<open>OverflowError\<close> when \<open>n\<close> rounds to \<open>2\<^sup>1\<^sup>0\<^sup>2\<^sup>4\<close> or more; this is the
  conversion of the \<open>int\<close>s in range (\<open>in_float_range\<close> below). \<open>_build_bm25\<close> expands every
  count into that many tokens, so the counts of a constructed calculator are far below it.
\<close>

definition float_of_int :: "int \<Rightarrow> real" where
  "float_of_int n = fl (of_int n)"

definition float_sub :: "real \<Rightarrow> real \<Rightarrow> real" where
  "float_sub x y = fl (x - y)"

definition float_mul :: "real \<Rightarrow> real \<Rightarrow> real" where
  "float_mul x y = fl (x * y)"

text \<open>\<open>x / y\<close> on floats.\<close>

definition float_truediv :: "real \<Rightarrow> real \<Rightarrow> error + real" where
  "float_truediv x y = (if y = 0 then Inl ZeroDivisionError else Inr (fl (x / y)))"

text \<open>\<open>a / b\<close> on \<open>int\<close>s: the correctly rounded quotient of the exact integers.\<close>

definition int_truediv :: "int \<Rightarrow> int \<Rightarrow> error + real" where
  "int_truediv a b = (if b = 0 then Inl ZeroDivisionError else Inr (fl (of_int a / of_int b)))"

text \<open>\<open>math.sqrt\<close> is the correctly rounded square root.\<close>

definition math_sqrt :: "real \<Rightarrow> real" where
  "math_sqrt x = fl (sqrt x)"


text \<open>
  \<open>x\<close> is \<open>y\<close> up to \<open>r\<close> roundings: the relative error that \<open>r\<close> float operations
  can build up, each within \<open>2\<^sup>-\<^sup>5\<^sup>3\<close>.
\<close>

definition roundings :: "nat \<Rightarrow> real \<Rightarrow> real \<Rightarrow> bool" where
  "roundings r y x \<longleftrightarrow> y * (1 - 1 / 2 ^ 53) ^ r \<le> x \<and> x * (1 - 1 / 2 ^ 53) ^ r \<le> y"

text \<open>
  The exact result \<open>x\<close> of an operation is in range when it rounds to a finite, normal
  binary64 number: at least \<open>2\<^sup>-\<^sup>1\<^sup>0\<^sup>2\<^sup>2\<close> in absolute value and, once rounded, below
  \<open>2\<^sup>1\<^sup>0\<^sup>2\<^sup>4\<close>. There the machine computes what \<open>fl\<close> does. Out of range Python differs
  from the model: \<open>float(n)\<close> raises \<open>OverflowError\<close> for an \<open>int\<close> that rounds to \<open>2\<^sup>1\<^sup>0\<^sup>2\<^sup>4\<close>
  or more (so do \<open>math.sqrt(n)\<close> and \<open>n / x\<close>), and a float operation yields an infinity
  or a subnormal number. A statement about tables of arbitrary size therefore bounds
  its integers.
\<close>

definition in_float_range :: "real \<Rightarrow> bool" where
  "in_float_range x \<longleftrightarrow> 1 / 2 ^ 1022 \<le> \<bar>x\<bar> \<and> \<bar>fl x\<bar> < 2 ^ 1024"


section \<open>The similarity calculator\<close>

type_synonym term_freq = "(string, int) dict"

type_synonym metadata = "(string, string) dict"

text \<open>
  The object after \<open>__init__\<close>. \<open>bm25_model\<close> is the \<open>get_scores\<close> method of the
  \<open>BM25Okapi\<close> object of the external package \<open>rank_bm25\<close>: it maps the query tokens
  to one raw score per document of the corpus.
\<close>

record calculator =
  inverted_index :: "(int, term_freq) dict"
  combined_data :: "(int, metadata) dict"
  bm25_model :: "string list \<Rightarrow> real list"
  bm25_id_map :: "int list"

text \<open>\<open>tokens.extend([word] * freq)\<close> for every item of one frequency table.\<close>

definition doc_tokens :: "term_freq \<Rightarrow> string list" where
  "doc_tokens freq_map = concat (map (\<lambda>(word, freq). replicate (nat freq) word) freq_map)"

text \<open>The loop of \<open>_build_bm25\<close>, with its two accumulators.\<close>

fun build_corpus ::
  "(int, term_freq) dict \<Rightarrow> string list list \<Rightarrow> int list \<Rightarrow> string list list \<times> int list"
where
  "build_corpus [] bm25_corpus id_map = (bm25_corpus, id_map)"
| "build_corpus ((doc_id, freq_map) # rest) bm25_corpus id_map =
     build_corpus rest (bm25_corpus @ [doc_tokens freq_map]) (id_map @ [doc_id])"

text \<open>
  \<open>__init__\<close> followed by \<open>_build_bm25\<close>. The constructor \<open>BM25Okapi\<close> of the
  external package is a parameter; it may reject the corpus.
\<close>

definition init ::
  "(string list list \<Rightarrow> error + (string list \<Rightarrow> real list)) \<Rightarrow>
   (int, term_freq) dict \<Rightarrow> (int, metadata) dict \<Rightarrow> error + calculator"
where
  "init BM25Okapi index data =
     (case build_corpus index [] [] of
        (bm25_corpus, id_map) \<Rightarrow>
          (case BM25Okapi bm25_corpus of
             Inl e \<Rightarrow> Inl e
           | Inr model \<Rightarrow>
               Inr \<lparr>inverted_index = index, combined_data = data,
                    bm25_model = model, bm25_id_map = id_map\<rparr>))"

definition preprocess_query :: "string \<Rightarrow> string list" where
  "preprocess_query query = filter (\<lambda>w. length w > 1) (split (lower query))"

definition calculate_jaccard :: "string list \<Rightarrow> term_freq \<Rightarrow> error + real" where
  "calculate_jaccard query_words doc_words_freq =
     (let query_set = set query_words;
          doc_set = set (dict_keys doc_words_freq);
          intersection = card (query_set \<inter> doc_set);
          union = card (query_set \<union> doc_set)
      in if union = 0 then Inr 0 else int_truediv (int intersection) (int union))"

text \<open>\<open>collections.Counter\<close> of a list: one entry per distinct word, in order of first
  occurrence, holding the number of occurrences.\<close>

fun counter_add :: "(string, int) dict \<Rightarrow> string \<Rightarrow> (string, int) dict" where
  "counter_add [] w = [(w, 1)]"
| "counter_add ((k, n) # d) w = (if k = w then (k, n + 1) # d else (k, n) # counter_add d w)"

definition Counter :: "string list \<Rightarrow> (string, int) dict" where
  "Counter ws = foldl counter_add [] ws"

text \<open>The loop that accumulates \<open>dot_product\<close> over the words of \<open>query_freq\<close>.\<close>

fun dot_loop :: "(string, int) dict \<Rightarrow> term_freq \<Rightarrow> int \<Rightarrow> int" where
  "dot_loop [] doc_words_freq dot_product = dot_product"
| "dot_loop ((word, qf) # rest) doc_words_freq dot_product =
     (case map_of doc_words_freq word of
        Some df \<Rightarrow> dot_loop rest doc_words_freq (dot_product + qf * df)
      | None \<Rightarrow> dot_loop rest doc_words_freq dot_product)"

definition sum_squares :: "int list \<Rightarrow> int" where
  "sum_squares fs = sum_list (map (\<lambda>freq. freq ^ 2) fs)"

definition calculate_cosine :: "string list \<Rightarrow> term_freq \<Rightarrow> error + real" where
  "calculate_cosine query_words doc_words_freq =
     (let query_freq = Counter query_words;
          dot_product = dot_loop query_freq doc_words_freq 0;
          query_magnitude = math_sqrt (float_of_int (sum_squares (dict_values query_freq)));
          doc_magnitude = math_sqrt (float_of_int (sum_squares (dict_values doc_words_freq)))
      in if query_magnitude = 0 \<or> doc_magnitude = 0 then Inr 0
         else float_truediv (float_of_int dot_product) (float_mul query_magnitude doc_magnitude))"

text \<open>\<open>max\<close> and \<open>min\<close> of a sequence; they raise on an empty one.\<close>

fun py_max :: "real list \<Rightarrow> error + real" where
  "py_max [] = Inl ValueError"
| "py_max (x # xs) = Inr (foldl max x xs)"

fun py_min :: "real list \<Rightarrow> error + real" where
  "py_min [] = Inl ValueError"
| "py_min (x # xs) = Inr (foldl min x xs)"

text \<open>
  The dict comprehension \<open>{self.bm25_id_map[i]: val(i) for i in range(n)}\<close>: the keys are
  inserted in order, a later one overwrites an equal earlier one, and an index beyond
  \<open>bm25_id_map\<close> raises.
\<close>

fun dict_comp ::
  "int list \<Rightarrow> (nat \<Rightarrow> error + real) \<Rightarrow> nat list \<Rightarrow> (int \<rightharpoonup> real) \<Rightarrow> error + (int \<rightharpoonup> real)"
where
  "dict_comp id_map val [] m = Inr m"
| "dict_comp id_map val (i # rest) m =
     (if i < length id_map
      then (case val i of
              Inl e \<Rightarrow> Inl e
            | Inr v \<Rightarrow> dict_comp id_map val rest (m(id_map ! i \<mapsto> v)))
      else Inl IndexError)"

definition calculate_bm25 :: "calculator \<Rightarrow> string list \<Rightarrow> error + (int \<rightharpoonup> real)" where
  "calculate_bm25 c query_words =
     (let raw_scores = bm25_model c query_words
      in case (if length raw_scores > 0 then py_max raw_scores else Inr 1) of
           Inl e \<Rightarrow> Inl e
         | Inr max_score \<Rightarrow>
             (case (if length raw_scores > 0 then py_min raw_scores else Inr 0) of
                Inl e \<Rightarrow> Inl e
              | Inr min_score \<Rightarrow>
                  (let score_range = float_sub max_score min_score
                   in if score_range = 0
                      then dict_comp (bm25_id_map c) (\<lambda>i. Inr 0)
                             [0..<length raw_scores] Map.empty
                      else dict_comp (bm25_id_map c)
                             (\<lambda>i. float_truediv (float_sub (raw_scores ! i) min_score)
                                    score_range)
                             [0..<length raw_scores] Map.empty)))"

subsection \<open>Search\<close>

record scored_result =
  content_id :: int
  title :: string
  similarity :: real
  category :: string
  date :: string
  image_url :: string
  url :: string
  content :: string

text \<open>\<open>self.combined_data.get(doc_id, {})\<close>.\<close>

definition doc_data_of :: "calculator \<Rightarrow> int \<Rightarrow> metadata" where
  "doc_data_of c doc_id = dict_get (combined_data c) doc_id []"

text \<open>The category test of the loop: \<open>True\<close> when the document is skipped by \<open>continue\<close>.
  \<open>if target_category:\<close> is Python truthiness: neither \<open>None\<close> nor the empty string.\<close>

definition category_skip :: "string option \<Rightarrow> metadata \<Rightarrow> bool" where
  "category_skip target_category doc_data =
     (case target_category of
        None \<Rightarrow> False
      | Some t \<Rightarrow>
          if t \<noteq> [] then lower (dict_get doc_data ''category'' []) \<noteq> lower t else False)"

text \<open>The \<open>if\<close>/\<open>elif\<close> chain that selects the similarity of one document.\<close>

definition doc_similarity ::
  "string \<Rightarrow> string list \<Rightarrow> (int \<rightharpoonup> real) \<Rightarrow> int \<Rightarrow> term_freq \<Rightarrow> error + real"
where
  "doc_similarity algorithm query_words bm25_scores doc_id doc_words_freq =
     (if algorithm = ''jaccard'' then calculate_jaccard query_words doc_words_freq
      else if algorithm = ''cosine'' then calculate_cosine query_words doc_words_freq
      else if algorithm = ''bm25''
        then Inr (case bm25_scores doc_id of None \<Rightarrow> 0 | Some s \<Rightarrow> s)
      else Inr 0)"

definition make_result :: "int \<Rightarrow> metadata \<Rightarrow> real \<Rightarrow> scored_result" where
  "make_result doc_id doc_data sim =
     \<lparr>content_id = doc_id,
      title = dict_get doc_data ''title'' ''Unknown Title'',
      similarity = sim,
      category = dict_get doc_data ''category'' ''Unknown Category'',
      date = dict_get doc_data ''date'' ''Unknown Date'',
      image_url = dict_get doc_data ''image_url'' [],
      url = dict_get doc_data ''url'' [],
      content = dict_get doc_data ''content'' []\<rparr>"

text \<open>The loop over \<open>self.inverted_index.items()\<close>, appending to \<open>results\<close>.\<close>

fun search_loop ::
  "calculator \<Rightarrow> string list \<Rightarrow> string \<Rightarrow> string option \<Rightarrow> real \<Rightarrow> (int \<rightharpoonup> real) \<Rightarrow>
   (int, term_freq) dict \<Rightarrow> scored_result list \<Rightarrow> error + scored_result list"
where
  "search_loop c query_words algorithm target_category min_similarity bm25_scores [] results =
     Inr results"
| "search_loop c query_words algorithm target_category min_similarity bm25_scores
     ((doc_id, doc_words_freq) # rest) results =
     (let doc_data = doc_data_of c doc_id
      in if category_skip target_category doc_data
         then search_loop c query_words algorithm target_category min_similarity bm25_scores
                rest results
         else (case doc_similarity algorithm query_words bm25_scores doc_id doc_words_freq of
                 Inl e \<Rightarrow> Inl e
               | Inr sim \<Rightarrow>
                   if sim \<ge> min_similarity
                   then search_loop c query_words algorithm target_category min_similarity
                          bm25_scores rest (results @ [make_result doc_id doc_data sim])
                   else search_loop c query_words algorithm target_category min_similarity
                          bm25_scores rest results))"

text \<open>\<open>results.sort(key=lambda x: x['similarity'], reverse=True)\<close>: a stable sort into
  descending order of similarity.\<close>

definition sort_results :: "scored_result list \<Rightarrow> scored_result list" where
  "sort_results results = sort_key (\<lambda>x. - similarity x) results"

definition search ::
  "calculator \<Rightarrow> string \<Rightarrow> string \<Rightarrow> string option \<Rightarrow> real \<Rightarrow> error + scored_result list"
where
  "search c query algorithm target_category min_similarity =
     (let query_words = preprocess_query query
      in if query_words = [] then Inr []
         else (case (if algorithm = ''bm25'' then calculate_bm25 c query_words
                     else Inr Map.empty) of
                 Inl e \<Rightarrow> Inl e
               | Inr bm25_scores \<Rightarrow>
                   (case search_loop c query_words algorithm target_category min_similarity
                           bm25_scores (inverted_index c) [] of
                      Inl e \<Rightarrow> Inl e
                    | Inr results \<Rightarrow> Inr (sort_results results))))"


text \<open>What one pass of the loop body appends to \<open>results\<close> for one item of the index,
  if anything.\<close>

definition emitted ::
  "calculator \<Rightarrow> string list \<Rightarrow> string \<Rightarrow> string option \<Rightarrow> real \<Rightarrow> (int \<rightharpoonup> real) \<Rightarrow>
   int \<times> term_freq \<Rightarrow> scored_result option"
where
  "emitted c query_words algorithm target_category min_similarity bm25_scores item =
     (case item of (doc_id, doc_words_freq) \<Rightarrow>
        if category_skip target_category (doc_data_of c doc_id) then None
        else (case doc_similarity algorithm query_words bm25_scores doc_id doc_words_freq of
                Inl e \<Rightarrow> None
              | Inr sim \<Rightarrow>
                  if sim \<ge> min_similarity
                  then Some (make_result doc_id (doc_data_of c doc_id) sim) else None))"

subsection \<open>A worked example\<close>

text \<open>
  Documents 1 and 5 of the fixture of \<open>test_similarity.py\<close>. The raw scores of the
  external BM25 model are fixed numbers here.
\<close>

definition example_index :: "(int, term_freq) dict" where
  "example_index =
     [(1, [(''wisata'', 3), (''pantai'', 2), (''bali'', 1), (''indah'', 1)]),
      (5, [(''museum'', 2), (''sejarah'', 3), (''jakarta'', 1), (''nasional'', 1)])]"

definition example_data :: "(int, metadata) dict" where
  "example_data =
     [(1, [(''category'', ''Wisata''), (''title'', ''Pantai Bali'')]),
      (5, [(''category'', ''Sejarah''), (''title'', ''Museum Nasional'')])]"

definition example_calculator :: calculator where
  "example_calculator =
     \<lparr>inverted_index = example_index, combined_data = example_data,
      bm25_model = (\<lambda>query_words. [0, 3]), bm25_id_map = [1, 5]\<rparr>"


section \<open>Rounding to binary64\<close>

text \<open>
  \<open>fl\<close> is monotone, exact at 0, at 1 and at every integer below \<open>2\<^sup>5\<^sup>3\<close> in absolute
  value, vanishes only at 0, and has relative error at most \<open>2\<^sup>-\<^sup>5\<^sup>3\<close>. On a concrete
  number it is evaluated with \<open>fl_between\<close>, and \<open>math_sqrt\<close> with \<open>math_sqrt_between\<close>: the
  significand and the exponent are given, and the two half-way points are compared.
\<close>

lemma round_half_even_of_int: "round_half_even (of_int n) = n"
  by (simp add: round_half_even_def)

lemma round_half_even_bounds:
  "\<lfloor>x\<rfloor> \<le> round_half_even x" "round_half_even x \<le> \<lfloor>x\<rfloor> + 1"
  by (simp_all add: round_half_even_def Let_def)

lemma round_half_even_mono:
  assumes "x \<le> y"
  shows "round_half_even x \<le> round_half_even y"
proof (cases "\<lfloor>x\<rfloor> = \<lfloor>y\<rfloor>")
  case True
  with assms show ?thesis
    by (auto simp: round_half_even_def Let_def)
next
  case False
  with assms have "\<lfloor>x\<rfloor> + 1 \<le> \<lfloor>y\<rfloor>"
    using floor_mono [of x y] by linarith
  with round_half_even_bounds(2) [of x] round_half_even_bounds(1) [of y]
  show ?thesis by linarith
qed

lemma round_half_even_error: "\<bar>of_int (round_half_even x) - x\<bar> \<le> 1 / 2"
  unfolding round_half_even_def Let_def by (auto; linarith)

lemma round_half_even_near:
  assumes "\<bar>x - of_int m\<bar> < 1 / 2"
  shows "round_half_even x = m"
proof -
  have "\<bar>of_int (round_half_even x) - x\<bar> \<le> 1 / 2"
    by (rule round_half_even_error)
  with assms have "\<bar>(of_int (round_half_even x) :: real) - of_int m\<bar> < 1"
    by linarith
  then have "\<bar>round_half_even x - m\<bar> < 1"
    by (metis of_int_1 of_int_abs of_int_diff of_int_less_iff)
  then show ?thesis by linarith
qed

lemma ulp_exp_bounds:
  assumes "x \<noteq> 0"
  shows "2 powr of_int (ulp_exp x + 52) \<le> \<bar>x\<bar>" "\<bar>x\<bar> < 2 powr of_int (ulp_exp x + 53)"
proof -
  have "0 < \<bar>x\<bar>" using assms by simp
  then have "2 powr of_int \<lfloor>log 2 \<bar>x\<bar>\<rfloor> \<le> \<bar>x\<bar> \<and> \<bar>x\<bar> < 2 powr (of_int \<lfloor>log 2 \<bar>x\<bar>\<rfloor> + 1)"
    using floor_log_eq_powr_iff [of "\<bar>x\<bar>" 2 "\<lfloor>log 2 \<bar>x\<bar>\<rfloor>"] by simp
  then show "2 powr of_int (ulp_exp x + 52) \<le> \<bar>x\<bar>" "\<bar>x\<bar> < 2 powr of_int (ulp_exp x + 53)"
    by (simp_all add: ulp_exp_def add.commute)
qed

lemma ulp_exp_eqI:
  assumes "2 powr of_int (e + 52) \<le> \<bar>x\<bar>" "\<bar>x\<bar> < 2 powr of_int (e + 53)"
  shows "ulp_exp x = e"
proof -
  have "0 < \<bar>x\<bar>" using assms(1) powr_gt_zero [of 2 "of_int (e + 52)"] by linarith
  then have "\<lfloor>log 2 \<bar>x\<bar>\<rfloor> = e + 52"
    using floor_log_eq_powr_iff [of "\<bar>x\<bar>" 2 "e + 52"] assms by (simp add: add.commute add.left_commute)
  then show ?thesis by (simp add: ulp_exp_def)
qed

lemma scaled_bounds:
  assumes "x \<noteq> 0"
  shows "2 ^ 52 \<le> \<bar>x\<bar> / 2 powr of_int (ulp_exp x)" "\<bar>x\<bar> / 2 powr of_int (ulp_exp x) < 2 ^ 53"
proof -
  let ?u = "2 powr of_int (ulp_exp x) :: real"
  have u: "0 < ?u" by simp
  have a: "2 powr of_int (ulp_exp x + 52) = ?u * 2 ^ 52"
    by (simp add: powr_add)
  have b: "2 powr of_int (ulp_exp x + 53) = ?u * 2 ^ 53"
    by (simp add: powr_add)
  from ulp_exp_bounds [OF assms] a b have "?u * 2 ^ 52 \<le> \<bar>x\<bar>" "\<bar>x\<bar> < ?u * 2 ^ 53"
    by simp_all
  with u show "2 ^ 52 \<le> \<bar>x\<bar> / ?u" "\<bar>x\<bar> / ?u < 2 ^ 53"
    by (simp_all add: pos_le_divide_eq pos_divide_less_eq mult.commute)
qed

lemma significand_bounds:
  assumes "x \<noteq> 0"
  shows "2 ^ 52 \<le> round_half_even (\<bar>x\<bar> / 2 powr of_int (ulp_exp x))"
    "round_half_even (\<bar>x\<bar> / 2 powr of_int (ulp_exp x)) \<le> 2 ^ 53"
proof -
  let ?s = "\<bar>x\<bar> / 2 powr of_int (ulp_exp x)"
  have "round_half_even (of_int (2 ^ 52)) \<le> round_half_even ?s"
    using scaled_bounds(1) [OF assms] by (intro round_half_even_mono) simp
  then show "2 ^ 52 \<le> round_half_even ?s"
    by (simp only: round_half_even_of_int)
  have "round_half_even ?s \<le> round_half_even (of_int (2 ^ 53))"
    using scaled_bounds(2) [OF assms] by (intro round_half_even_mono) simp
  then show "round_half_even ?s \<le> 2 ^ 53"
    by (simp only: round_half_even_of_int)
qed

lemma fl_zero: "fl 0 = 0"
  by (simp add: fl_def)

lemma fl_minus: "fl (- x) = - fl x"
  by (simp add: fl_def ulp_exp_def sgn_minus)

lemma fl_pos:
  assumes "0 < x"
  shows "0 < fl x"
proof -
  have "0 < round_half_even (\<bar>x\<bar> / 2 powr of_int (ulp_exp x))"
    using significand_bounds(1) [of x] assms by simp
  then show ?thesis using assms by (simp add: fl_def)
qed

lemma fl_eq_0_iff: "fl x = 0 \<longleftrightarrow> x = 0"
  using fl_pos [of x] fl_pos [of "- x"] fl_minus [of x] fl_zero
  by (cases "x = 0"; cases "0 < x") auto

lemma fl_nonneg: "0 \<le> x \<Longrightarrow> 0 \<le> fl x"
  using fl_pos [of x] fl_zero by (cases "x = 0") auto

lemma ulp_exp_mono:
  assumes "0 < x" "x \<le> y"
  shows "ulp_exp x \<le> ulp_exp y"
proof -
  have "log 2 x \<le> log 2 y" using assms by simp
  then show ?thesis using assms by (simp add: ulp_exp_def floor_mono)
qed

lemma fl_mono_pos:
  assumes "0 < x" "x \<le> y"
  shows "fl x \<le> fl y"
proof -
  let ?ex = "ulp_exp x" and ?ey = "ulp_exp y"
  let ?mx = "round_half_even (\<bar>x\<bar> / 2 powr of_int ?ex)"
  let ?my = "round_half_even (\<bar>y\<bar> / 2 powr of_int ?ey)"
  have x0: "x \<noteq> 0" and y0: "y \<noteq> 0" and ypos: "0 < y" using assms by auto
  have fx: "fl x = of_int ?mx * 2 powr of_int ?ex" using assms by (simp add: fl_def)
  have fy: "fl y = of_int ?my * 2 powr of_int ?ey" using ypos by (simp add: fl_def)
  have le: "?ex \<le> ?ey" by (rule ulp_exp_mono [OF assms])
  show ?thesis
  proof (cases "?ex = ?ey")
    case True
    have "\<bar>x\<bar> / 2 powr of_int ?ex \<le> \<bar>y\<bar> / 2 powr of_int ?ex"
      using assms by (simp add: divide_right_mono)
    then have "?mx \<le> ?my" using True by (simp add: round_half_even_mono)
    then have "(of_int ?mx :: real) \<le> of_int ?my" by simp
    then show ?thesis unfolding fx fy True
      by (intro mult_right_mono) simp_all
  next
    case False
    with le have lt: "?ex + 1 \<le> ?ey" by simp
    have "(of_int ?mx :: real) \<le> of_int (2 ^ 53)"
      using significand_bounds(2) [OF x0] by (simp only: of_int_le_iff)
    then have "of_int ?mx * 2 powr of_int ?ex \<le> (2 ^ 53 :: real) * 2 powr of_int ?ex"
      by (intro mult_right_mono) simp_all
    also have "\<dots> = 2 ^ 52 * 2 powr of_int (?ex + 1)"
      by (simp add: powr_add)
    also have "\<dots> \<le> 2 ^ 52 * 2 powr of_int ?ey"
      using lt by (intro mult_left_mono) (simp_all add: powr_mono)
    also have "\<dots> \<le> of_int ?my * 2 powr of_int ?ey"
    proof -
      have "(of_int (2 ^ 52) :: real) \<le> of_int ?my"
        using significand_bounds(1) [OF y0] by (simp only: of_int_le_iff)
      then show ?thesis by (intro mult_right_mono) simp_all
    qed
    finally show ?thesis unfolding fx fy .
  qed
qed

lemma fl_mono:
  assumes "x \<le> y"
  shows "fl x \<le> fl y"
proof -
  consider "0 < x" | "x \<le> 0" "0 \<le> y" | "y < 0" by linarith
  then show ?thesis
  proof cases
    case 1
    then show ?thesis using assms by (rule fl_mono_pos)
  next
    case 2
    then have "fl x \<le> 0" "0 \<le> fl y"
      using fl_nonneg [of "- x"] fl_nonneg [of y] by (simp_all add: fl_minus)
    then show ?thesis by linarith
  next
    case 3
    then have "fl (- y) \<le> fl (- x)" using assms by (intro fl_mono_pos) simp_all
    then show ?thesis by (simp add: fl_minus)
  qed
qed

lemma fl_eqI:
  assumes "2 powr of_int (e + 52) \<le> x" "x < 2 powr of_int (e + 53)"
    and "\<bar>x / 2 powr of_int e - of_int m\<bar> < 1 / 2"
  shows "fl x = of_int m * 2 powr of_int e"
proof -
  have pos: "0 < x" using assms(1) powr_gt_zero [of 2 "of_int (e + 52)"] by linarith
  then have "ulp_exp x = e" using assms(1,2) by (intro ulp_exp_eqI) simp_all
  moreover have "round_half_even (x / 2 powr of_int e) = m"
    using assms(3) by (rule round_half_even_near)
  ultimately show ?thesis using pos by (simp add: fl_def)
qed

lemma fl_exact:
  assumes "2 ^ 52 \<le> m" "m < 2 ^ 53"
  shows "fl (of_int m * 2 powr of_int e) = of_int m * 2 powr of_int e"
proof -
  let ?x = "of_int m * 2 powr of_int e :: real"
  have "(of_int (2 ^ 52) :: real) \<le> of_int m" "(of_int m :: real) < of_int (2 ^ 53)"
    using assms by (simp_all only: of_int_le_iff of_int_less_iff)
  then have m: "(2 ^ 52 :: real) \<le> of_int m" "(of_int m :: real) < 2 ^ 53"
    by simp_all
  have a: "2 powr of_int (e + 52) \<le> ?x"
    using m(1) by (simp add: powr_add mult.commute)
  have b: "?x < 2 powr of_int (e + 53)"
    using m(2) by (simp add: powr_add mult.commute)
  have c: "\<bar>?x / 2 powr of_int e - of_int m\<bar> < 1 / 2"
    by simp
  show ?thesis by (rule fl_eqI [OF a b c])
qed

lemma fl_one: "fl 1 = 1"
  using fl_exact [of "2 ^ 52" "- 52"] by (simp add: powr_minus_divide)

lemma fl_of_int:
  assumes "\<bar>n\<bar> < 2 ^ 53"
  shows "fl (of_int n) = of_int n"
proof -
  have pos: "fl (of_int k) = of_int k" if "0 < k" "k < 2 ^ 53" for k :: int
  proof -
    let ?x = "of_int k :: real"
    let ?e = "ulp_exp ?x"
    have x: "0 < ?x" "?x \<noteq> 0" using that by simp_all
    have "(of_int k :: real) < of_int (2 ^ 53)"
      using that(2) by (simp only: of_int_less_iff)
    moreover have p53: "(2 :: real) powr of_int 53 = of_int (2 ^ 53)"
      by simp
    ultimately have "?x < 2 powr of_int 53"
      by (simp only:)
    with ulp_exp_bounds(1) [OF x(2)] x(1)
    have "(2 :: real) powr of_int (?e + 52) < 2 powr of_int 53"
      by (simp only: abs_of_pos)
    then have "(of_int (?e + 52) :: real) < of_int 53"
      by (rule powr_less_cancel) simp
    then have "?e + 52 < 53"
      by (simp only: of_int_less_iff)
    then have "?e \<le> 0" by simp
    then have u: "2 powr of_int ?e = 1 / (2 :: real) ^ nat (- ?e)"
      by (simp add: powr_real_of_int inverse_eq_divide)
    have "\<bar>?x\<bar> / 2 powr of_int ?e = of_int (k * 2 ^ nat (- ?e))"
      using x(1) by (simp add: u)
    then have "round_half_even (\<bar>?x\<bar> / 2 powr of_int ?e) = k * 2 ^ nat (- ?e)"
      by (simp only: round_half_even_of_int)
    then have "fl ?x = of_int (k * 2 ^ nat (- ?e)) * (1 / 2 ^ nat (- ?e))"
      using x by (simp add: fl_def u)
    then show ?thesis by simp
  qed
  consider "n = 0" | "0 < n" | "0 < - n" by linarith
  then show ?thesis
  proof cases
    case 1
    then show ?thesis by (simp add: fl_zero)
  next
    case 2
    with assms show ?thesis by (intro pos) simp_all
  next
    case 3
    with assms have "fl (of_int (- n)) = of_int (- n)" by (intro pos) simp_all
    then show ?thesis by (simp add: fl_minus)
  qed
qed

lemma fl_error:
  "\<bar>fl x - x\<bar> \<le> \<bar>x\<bar> / 2 ^ 53"
proof (cases "x = 0")
  case True
  then show ?thesis by (simp add: fl_zero)
next
  case False
  let ?u = "2 powr of_int (ulp_exp x) :: real"
  let ?s = "\<bar>x\<bar> / ?u"
  let ?m = "of_int (round_half_even ?s) :: real"
  have u: "0 < ?u" by simp
  have x: "\<bar>x\<bar> = ?s * ?u" by simp
  have "fl x - x = sgn x * (?m * ?u) - sgn x * \<bar>x\<bar>"
    using False by (simp add: fl_def mult.assoc mult_sgn_abs)
  also have "\<dots> = sgn x * ((?m - ?s) * ?u)"
    by (simp add: algebra_simps)
  finally have "\<bar>fl x - x\<bar> = \<bar>?m - ?s\<bar> * ?u"
    using False by (simp add: abs_mult abs_sgn_eq)
  also have "\<dots> \<le> 1 / 2 * ?u"
    using round_half_even_error [of ?s] by (intro mult_right_mono) simp_all
  also have "\<dots> \<le> \<bar>x\<bar> / 2 ^ 53"
  proof -
    have "2 ^ 52 * ?u \<le> \<bar>x\<bar>"
      using scaled_bounds(1) [OF False] u by (simp add: pos_le_divide_eq)
    then show ?thesis by simp
  qed
  finally show ?thesis .
qed

lemma fl_between:
  assumes "2 ^ 52 < m" "m < 2 ^ 53"
    and "(of_int m - 1 / 2) * 2 powr of_int e < x" "x < (of_int m + 1 / 2) * 2 powr of_int e"
  shows "fl x = of_int m * 2 powr of_int e"
proof -
  let ?u = "2 powr of_int e :: real"
  have u: "0 < ?u" by simp
  have "2 ^ 52 + 1 \<le> m" "m + 1 \<le> 2 ^ 53" using assms(1,2) by simp_all
  then have "(of_int (2 ^ 52 + 1) :: real) \<le> of_int m" "(of_int (m + 1) :: real) \<le> of_int (2 ^ 53)"
    by (simp_all only: of_int_le_iff)
  then have m: "(2 ^ 52 :: real) \<le> of_int m - 1 / 2" "(of_int m :: real) + 1 / 2 \<le> 2 ^ 53"
    by simp_all
  have "2 ^ 52 * ?u \<le> (of_int m - 1 / 2) * ?u"
    using m(1) u by (intro mult_right_mono) simp_all
  with assms(3) have "2 ^ 52 * ?u \<le> x"
    by linarith
  then have a: "2 powr of_int (e + 52) \<le> x"
    by (simp add: powr_add mult.commute)
  have "(of_int m + 1 / 2) * ?u \<le> 2 ^ 53 * ?u"
    using m(2) u by (intro mult_right_mono) simp_all
  with assms(4) have "x < 2 ^ 53 * ?u"
    by linarith
  then have b: "x < 2 powr of_int (e + 53)"
    by (simp add: powr_add mult.commute)
  have "of_int m - 1 / 2 < x / ?u" "x / ?u < of_int m + 1 / 2"
    using assms(3,4) u by (simp_all add: pos_less_divide_eq pos_divide_less_eq)
  then have c: "\<bar>x / ?u - of_int m\<bar> < 1 / 2"
    by linarith
  show ?thesis by (rule fl_eqI [OF a b c])
qed

lemma math_sqrt_between:
  assumes "2 ^ 52 < m" "m < 2 ^ 53"
    and "((of_int m - 1 / 2) * 2 powr of_int e)\<^sup>2 < x" "x < ((of_int m + 1 / 2) * 2 powr of_int e)\<^sup>2"
  shows "math_sqrt x = of_int m * 2 powr of_int e"
proof -
  have "(2 ^ 52 :: real) < of_int m"
    using assms(1) by (metis of_int_less_iff of_int_numeral of_int_power)
  then have pos: "(0 :: real) \<le> (of_int m + 1 / 2) * 2 powr of_int e"
    by simp
  have "(of_int m - 1 / 2) * 2 powr of_int e < sqrt x"
    using assms(3) by (rule real_less_rsqrt)
  moreover have "sqrt x < (of_int m + 1 / 2) * 2 powr of_int e"
    using pos assms(4) by (rule real_less_lsqrt)
  ultimately show ?thesis
    unfolding math_sqrt_def using assms(1,2) by (intro fl_between)
qed

subsection \<open>Accumulated rounding error\<close>

lemma L_bounds: "(0 :: real) < 1 - 1 / 2 ^ 53" "(1 :: real) - 1 / 2 ^ 53 \<le> 1"
  by simp_all

lemma L_power_bounds: "(0 :: real) < (1 - 1 / 2 ^ 53) ^ r" "((1 :: real) - 1 / 2 ^ 53) ^ r \<le> 1"
  using L_bounds by (simp_all add: power_le_one)

lemma roundings_pos:
  assumes "0 < y" "roundings r y x"
  shows "0 < x"
proof -
  have "0 < y * (1 - 1 / 2 ^ 53) ^ r"
    using assms(1) L_power_bounds(1) [of r] by (rule mult_pos_pos)
  with assms(2) show ?thesis by (simp add: roundings_def)
qed

lemma roundings_refl: "roundings 0 y y"
  by (simp add: roundings_def)

lemma roundings_fl:
  assumes "0 < y" "roundings r y x"
  shows "roundings (Suc r) y (fl x)"
proof -
  let ?L = "1 - 1 / 2 ^ 53 :: real"
  have x: "0 < x" using assms by (rule roundings_pos)
  have e: "\<bar>fl x - x\<bar> \<le> x / 2 ^ 53" using fl_error [of x] x by simp
  from e have e': "x - x / 2 ^ 53 \<le> fl x" "fl x \<le> x + x / 2 ^ 53"
    by linarith+
  have "x * ?L = x - x / 2 ^ 53" by (simp add: algebra_simps)
  with e'(1) have lo: "x * ?L \<le> fl x" by simp
  have "x * (1 + 1 / 2 ^ 53) = x + x / 2 ^ 53" by (simp add: algebra_simps)
  with e'(2) have "fl x \<le> x * (1 + 1 / 2 ^ 53)" by simp
  then have "fl x * ?L \<le> x * (1 + 1 / 2 ^ 53) * ?L"
    by (intro mult_right_mono) simp_all
  also have "\<dots> = x * (1 - (1 / 2 ^ 53)\<^sup>2)"
    by (simp add: algebra_simps power2_eq_square)
  also have "\<dots> \<le> x" using x by simp
  finally have hi: "fl x * ?L \<le> x" .
  have "y * ?L ^ Suc r = (y * ?L ^ r) * ?L" by simp
  also have "\<dots> \<le> x * ?L"
    using assms(2) by (intro mult_right_mono) (simp_all add: roundings_def)
  also have "\<dots> \<le> fl x" by (rule lo)
  finally have a: "y * ?L ^ Suc r \<le> fl x" .
  have "fl x * ?L ^ Suc r = (fl x * ?L) * ?L ^ r" by simp
  also have "\<dots> \<le> x * ?L ^ r"
    using hi L_power_bounds(1) [of r] by (intro mult_right_mono) simp_all
  also have "\<dots> \<le> y" using assms(2) by (simp add: roundings_def)
  finally have b: "fl x * ?L ^ Suc r \<le> y" .
  from a b show ?thesis by (simp only: roundings_def)
qed

lemma roundings_sqrt:
  assumes "0 < y" "roundings r (y\<^sup>2) x"
  shows "roundings r y (sqrt x)"
proof -
  define p :: real where "p = (1 - 1 / 2 ^ 53) ^ r"
  have p: "0 < p" "p \<le> 1" unfolding p_def by (rule L_power_bounds)+
  have r: "y\<^sup>2 * p \<le> x" "x * p \<le> y\<^sup>2"
    using assms(2) by (simp_all only: roundings_def p_def)
  have pp: "p * p \<le> p" using p by (simp add: mult_left_le)
  have "0 < y\<^sup>2 * p" using assms(1) p(1) by simp
  with r(1) have x: "0 < x" by linarith
  have "(y * p)\<^sup>2 = y\<^sup>2 * (p * p)" by (simp add: power2_eq_square)
  also have "\<dots> \<le> y\<^sup>2 * p" using pp by (intro mult_left_mono) simp_all
  also have "\<dots> \<le> x" by (rule r(1))
  finally have a: "y * p \<le> sqrt x" by (rule real_le_rsqrt)
  have "(sqrt x * p)\<^sup>2 = x * (p * p)" using x by (simp add: power2_eq_square)
  also have "\<dots> \<le> x * p" using pp x by (intro mult_left_mono) simp_all
  also have "\<dots> \<le> y\<^sup>2" by (rule r(2))
  finally have "(sqrt x * p)\<^sup>2 \<le> y\<^sup>2" .
  then have b: "sqrt x * p \<le> y"
  proof (rule power2_le_imp_le)
    show "0 \<le> y" using assms(1) by simp
  qed
  from a b show ?thesis by (simp only: roundings_def p_def)
qed

lemma roundings_mult:
  assumes "0 < y1" "0 < y2" "roundings r1 y1 x1" "roundings r2 y2 x2"
  shows "roundings (r1 + r2) (y1 * y2) (x1 * x2)"
proof -
  let ?L = "1 - 1 / 2 ^ 53 :: real"
  have x: "0 < x1" "0 < x2" using assms roundings_pos by blast+
  have p: "0 < ?L ^ r1" "0 < ?L ^ r2" by (rule L_power_bounds)+
  have "(y1 * ?L ^ r1) * (y2 * ?L ^ r2) \<le> x1 * x2"
    using assms p x by (intro mult_mono) (simp_all add: roundings_def)
  moreover have "(x1 * ?L ^ r1) * (x2 * ?L ^ r2) \<le> y1 * y2"
    using assms p x by (intro mult_mono) (simp_all add: roundings_def)
  ultimately show ?thesis
    by (simp add: roundings_def power_add algebra_simps)
qed

lemma roundings_divide:
  assumes "0 < y1" "0 < y2" "roundings r1 y1 x1" "roundings r2 y2 x2"
  shows "roundings (r1 + r2) (y1 / y2) (x1 / x2)"
proof -
  let ?L = "1 - 1 / 2 ^ 53 :: real"
  have x: "0 < x1" "0 < x2" using assms roundings_pos by blast+
  have p: "0 < ?L ^ r1" "0 < ?L ^ r2" by (rule L_power_bounds)+
  have "(y1 * ?L ^ r1) * (x2 * ?L ^ r2) \<le> x1 * y2"
    using assms p x by (intro mult_mono) (simp_all add: roundings_def)
  then have a: "y1 / y2 * ?L ^ (r1 + r2) \<le> x1 / x2"
    using x(2) assms(2) by (simp add: field_simps power_add)
  have "(x1 * ?L ^ r1) * (y2 * ?L ^ r2) \<le> y1 * x2"
    using assms p x by (intro mult_mono) (simp_all add: roundings_def)
  then have b: "x1 / x2 * ?L ^ (r1 + r2) \<le> y1 / y2"
    using x(2) assms(2) by (simp add: field_simps power_add)
  from a b show ?thesis by (simp only: roundings_def)
qed

lemma roundings_7:
  assumes "roundings 7 1 x"
  shows "\<bar>x - 1\<bar> \<le> 1 / 2 ^ 50"
proof -
  define P :: real where "P = (1 - 1 / 2 ^ 53) ^ 7"
  define d :: real where "d = 1 / 2 ^ 50"
  have L: "(1 :: real) - 1 / 2 ^ 53 = 9007199254740991 / 9007199254740992" by simp
  have lo: "1 - d \<le> P" unfolding P_def d_def L by (simp add: power_divide)
  have hi: "1 \<le> (1 + d) * P" unfolding P_def d_def L by (simp add: power_divide)
  have p: "0 < P" unfolding P_def by (rule L_power_bounds)
  from assms have a: "P \<le> x" and b: "x * P \<le> 1"
    by (simp_all add: roundings_def P_def)
  from b hi have "x * P \<le> (1 + d) * P" by (rule order_trans)
  then have "x \<le> 1 + d" using p by (simp only: mult_le_cancel_right_pos)
  moreover from lo a have "1 - d \<le> x" by (rule order_trans)
  ultimately have "\<bar>x - 1\<bar> \<le> d" by (simp only: abs_le_iff) linarith
  then show ?thesis by (simp only: d_def)
qed

lemma fl_three_halves: "fl (3 * 2 ^ 1022) = 3 * 2 ^ 1022"
  using fl_exact [of "3 * 2 ^ 51" 971] by simp

lemma in_float_rangeI:
  assumes "1 / 2 \<le> x" "x \<le> 3 * 2 ^ 1022"
  shows "in_float_range x"
proof -
  have "fl x \<le> fl (3 * 2 ^ 1022)" using assms(2) by (rule fl_mono)
  then have "fl x \<le> 3 * 2 ^ 1022" by (simp only: fl_three_halves)
  moreover have "(3 :: real) * 2 ^ 1022 < 2 ^ 1024" by simp
  ultimately have "fl x < 2 ^ 1024" by (rule le_less_trans)
  moreover have "0 \<le> fl x" using assms(1) by (intro fl_nonneg) simp
  moreover have "(1 :: real) / 2 ^ 1022 \<le> 1 / 2" by simp
  from this assms(1) have "1 / 2 ^ 1022 \<le> x" by (rule order_trans)
  moreover have "0 \<le> x" using assms(1) by simp
  ultimately show ?thesis by (simp only: in_float_range_def abs_of_nonneg)
qed

lemma roundings_bounds:
  assumes "0 < y" "roundings r y x" "r \<le> 7"
  shows "y / 2 \<le> x" "x \<le> y * (3 / 2)"
proof -
  define p :: real where "p = (1 - 1 / 2 ^ 53) ^ r"
  have L: "(1 :: real) - 1 / 2 ^ 53 = 9007199254740991 / 9007199254740992" by simp
  have "(2 / 3 :: real) \<le> (1 - 1 / 2 ^ 53) ^ 7" unfolding L by (simp add: power_divide)
  also have "\<dots> \<le> p" unfolding p_def using assms(3) by (intro power_decreasing) simp_all
  finally have p: "2 / 3 \<le> p" .
  have x: "0 < x" using assms(1,2) by (rule roundings_pos)
  from assms(2) have r: "y * p \<le> x" "x * p \<le> y"
    by (simp_all only: roundings_def p_def)
  have "y * (1 / 2) \<le> y * p" using assms(1) p by (intro mult_left_mono) simp_all
  with r(1) show "y / 2 \<le> x" by simp
  have "x * (2 / 3) \<le> x * p" using x p by (intro mult_left_mono) simp_all
  from this r(2) have "x * (2 / 3) \<le> y" by (rule order_trans)
  then show "x \<le> y * (3 / 2)" by simp
qed

lemma cosine_rounding:
  assumes "0 < S" "0 < T" "dot = sqrt S * sqrt T"
  shows "0 < math_sqrt (fl S)" "0 < math_sqrt (fl T)"
    "roundings 7 1 (fl (fl dot / fl (math_sqrt (fl S) * math_sqrt (fl T))))"
    "roundings 1 (sqrt S) (sqrt (fl S))" "roundings 1 (sqrt T) (sqrt (fl T))"
    "roundings 4 (sqrt S * sqrt T) (math_sqrt (fl S) * math_sqrt (fl T))"
    "roundings 6 1 (fl dot / fl (math_sqrt (fl S) * math_sqrt (fl T)))"
proof -
  let ?a = "sqrt S" and ?b = "sqrt T"
  have a: "0 < ?a" "?a\<^sup>2 = S" and b: "0 < ?b" "?b\<^sup>2 = T"
    using assms(1,2) by simp_all
  have ab: "0 < ?a * ?b" using a(1) b(1) by simp
  have qm: "roundings 2 ?a (math_sqrt (fl S))"
  proof -
    have "roundings 0 (?a\<^sup>2) S" unfolding a(2) by (rule roundings_refl)
    then have "roundings (Suc 0) (?a\<^sup>2) (fl S)"
      using a(1) by (intro roundings_fl) simp_all
    then have "roundings (Suc 0) ?a (sqrt (fl S))"
      using a(1) by (intro roundings_sqrt)
    then have "roundings (Suc (Suc 0)) ?a (fl (sqrt (fl S)))"
      using a(1) by (intro roundings_fl)
    then show ?thesis by (simp add: math_sqrt_def numeral_2_eq_2)
  qed
  have dm: "roundings 2 ?b (math_sqrt (fl T))"
  proof -
    have "roundings 0 (?b\<^sup>2) T" unfolding b(2) by (rule roundings_refl)
    then have "roundings (Suc 0) (?b\<^sup>2) (fl T)"
      using b(1) by (intro roundings_fl) simp_all
    then have "roundings (Suc 0) ?b (sqrt (fl T))"
      using b(1) by (intro roundings_sqrt)
    then have "roundings (Suc (Suc 0)) ?b (fl (sqrt (fl T)))"
      using b(1) by (intro roundings_fl)
    then show ?thesis by (simp add: math_sqrt_def numeral_2_eq_2)
  qed
  have "roundings 0 (?a\<^sup>2) S" unfolding a(2) by (rule roundings_refl)
  then have "roundings (Suc 0) (?a\<^sup>2) (fl S)"
    using a(1) by (intro roundings_fl) simp_all
  then have "roundings (Suc 0) ?a (sqrt (fl S))"
    using a(1) by (intro roundings_sqrt)
  then show "roundings 1 (sqrt S) (sqrt (fl S))" by simp
  have "roundings 0 (?b\<^sup>2) T" unfolding b(2) by (rule roundings_refl)
  then have "roundings (Suc 0) (?b\<^sup>2) (fl T)"
    using b(1) by (intro roundings_fl) simp_all
  then have "roundings (Suc 0) ?b (sqrt (fl T))"
    using b(1) by (intro roundings_sqrt)
  then show "roundings 1 (sqrt T) (sqrt (fl T))" by simp
  show "0 < math_sqrt (fl S)" using a(1) qm by (rule roundings_pos)
  show "0 < math_sqrt (fl T)" using b(1) dm by (rule roundings_pos)
  have pr: "roundings (2 + 2) (?a * ?b) (math_sqrt (fl S) * math_sqrt (fl T))"
    using a(1) b(1) qm dm by (rule roundings_mult)
  then show "roundings 4 (sqrt S * sqrt T) (math_sqrt (fl S) * math_sqrt (fl T))"
    by simp
  from pr have p: "roundings (Suc (2 + 2)) (?a * ?b) (fl (math_sqrt (fl S) * math_sqrt (fl T)))"
    using ab by (intro roundings_fl)
  have "roundings 0 (?a * ?b) dot" unfolding assms(3) by (rule roundings_refl)
  then have n: "roundings (Suc 0) (?a * ?b) (fl dot)"
    using ab by (intro roundings_fl)
  have "roundings (Suc 0 + Suc (2 + 2)) (?a * ?b / (?a * ?b))
      (fl dot / fl (math_sqrt (fl S) * math_sqrt (fl T)))"
    using ab ab n p by (rule roundings_divide)
  moreover have "?a * ?b / (?a * ?b) = 1" "Suc 0 + Suc (2 + 2) = 6"
    using assms(1,2) by simp_all
  ultimately show q: "roundings 6 1 (fl dot / fl (math_sqrt (fl S) * math_sqrt (fl T)))"
    by (simp only:)
  then have "roundings (Suc 6) 1 (fl (fl dot / fl (math_sqrt (fl S) * math_sqrt (fl T))))"
    by (intro roundings_fl) simp_all
  then show "roundings 7 1 (fl (fl dot / fl (math_sqrt (fl S) * math_sqrt (fl T))))"
    by simp
qed

section \<open>Query preprocessing\<close>

lemma lower_char_space: "is_space (lower_char ch) = is_space ch"
  by (cases ch) (auto simp: is_space_def lower_char_def Let_def)

lemma split_acc_whitespace:
  "\<forall>ch \<in> set s. is_space ch \<Longrightarrow> split_acc [] s = []"
  by (induction s) simp_all

lemma preprocess_query_whitespace:
  assumes "\<forall>ch \<in> set query. is_space ch"
  shows "preprocess_query query = []"
proof -
  have "\<forall>ch \<in> set (lower query). is_space ch"
    using assms by (simp add: lower_def lower_char_space)
  then show ?thesis
    by (simp add: preprocess_query_def split_def split_acc_whitespace)
qed

lemma example_query: "preprocess_query ''Pantai  a bali'' = [''pantai'', ''bali'']"
  by (simp add: preprocess_query_def split_def lower_def lower_char_def is_space_def)

section \<open>Construction\<close>

lemma build_corpus_eq:
  "build_corpus index bm25_corpus id_map =
     (bm25_corpus @ map (\<lambda>(doc_id, freq_map). doc_tokens freq_map) index,
      id_map @ dict_keys index)"
  by (induction index bm25_corpus id_map rule: build_corpus.induct) (simp_all add: dict_keys_def)

lemma init_Inr:
  assumes "init BM25Okapi index data = Inr c"
  shows "inverted_index c = index" and "combined_data c = data"
    and "bm25_id_map c = dict_keys index"
    and "BM25Okapi (map (\<lambda>(doc_id, freq_map). doc_tokens freq_map) index) = Inr (bm25_model c)"
    and "dict_wf index \<Longrightarrow> distinct (bm25_id_map c)"
  using assms
  by (auto simp: init_def build_corpus_eq dict_wf_def dict_keys_def split: sum.splits)

section \<open>Jaccard\<close>

lemma calculate_jaccard_returns:
  "\<exists>sim. calculate_jaccard query_words doc_words_freq = Inr sim"
  by (simp add: calculate_jaccard_def int_truediv_def Let_def)

text \<open>
  C4. \<open>calculate_jaccard\<close> returns the quotient of the number of terms common to the
  query and the document by the number of terms of either, as a float: the quotient
  rounded to binary64, within relative error \<open>2\<^sup>-\<^sup>5\<^sup>3\<close> of the exact one. The value
  lies between 0 and 1, depends on the document only through its set of terms, is
  exactly 0 when no term is shared (both sets empty included) and exactly 1 when the
  two sets are equal and not empty.
\<close>

theorem calculate_jaccard_correct:
  fixes query_words :: "string list" and doc_words_freq :: term_freq
  defines "A \<equiv> set query_words" and "B \<equiv> set (dict_keys doc_words_freq)"
  shows "\<exists>sim. calculate_jaccard query_words doc_words_freq = Inr sim \<and>
    sim = (if A \<union> B = {} then 0 else fl (real (card (A \<inter> B)) / real (card (A \<union> B)))) \<and>
    \<bar>sim - real (card (A \<inter> B)) / real (card (A \<union> B))\<bar>
       \<le> real (card (A \<inter> B)) / real (card (A \<union> B)) / 2 ^ 53 \<and>
    0 \<le> sim \<and> sim \<le> 1 \<and>
    (A \<inter> B = {} \<longrightarrow> sim = 0) \<and>
    (A = B \<and> A \<noteq> {} \<longrightarrow> sim = 1) \<and>
    (\<forall>other. set (dict_keys other) = B \<longrightarrow> calculate_jaccard query_words other = Inr sim)"
proof -
  let ?i = "card (A \<inter> B)" and ?u = "card (A \<union> B)"
  let ?sim = "if A \<union> B = {} then 0 else fl (real ?i / real ?u)"
  have fin: "finite (A \<union> B)" by (simp add: A_def B_def)
  have u0: "?u = 0 \<longleftrightarrow> A \<union> B = {}" using fin by simp
  have val: "calculate_jaccard query_words other = Inr ?sim"
    if "set (dict_keys other) = B" for other
    using that u0 by (simp add: calculate_jaccard_def int_truediv_def Let_def A_def)
  have le: "?i \<le> ?u" using fin by (intro card_mono) auto
  have q: "0 \<le> real ?i / real ?u" "real ?i / real ?u \<le> 1"
    using le by (auto simp: divide_le_eq_1)
  have "fl 0 \<le> fl (real ?i / real ?u)" "fl (real ?i / real ?u) \<le> fl 1"
    using q by (simp_all only: fl_mono)
  then have range: "0 \<le> ?sim" "?sim \<le> 1"
    by (simp_all add: fl_zero fl_one)
  have err: "\<bar>?sim - real ?i / real ?u\<bar> \<le> real ?i / real ?u / 2 ^ 53"
  proof (cases "A \<union> B = {}")
    case True
    then show ?thesis by simp
  next
    case False
    with fl_error [of "real ?i / real ?u"] q(1) show ?thesis by simp
  qed
  have zero: "?sim = 0" if "A \<inter> B = {}"
    using that by (simp add: fl_zero)
  have one: "?sim = 1" if "A = B \<and> A \<noteq> {}"
  proof -
    from that have eq: "A \<inter> B = A \<union> B" and ne: "A \<union> B \<noteq> {}" by auto
    from ne fin have "real (card (A \<union> B)) \<noteq> 0" by simp
    then show ?thesis unfolding eq using ne by (simp add: fl_one)
  qed
  from val [of doc_words_freq] val range err zero one show ?thesis
    unfolding B_def [symmetric] by (intro exI [of _ ?sim]) blast
qed

theorem calculate_jaccard_correct_witness:
  "calculate_jaccard [''wisata'', ''pantai'', ''bali'', ''indah'']
     [(''wisata'', 3), (''pantai'', 2), (''bali'', 1), (''indah'', 1)] = Inr 1 \<and>
   calculate_jaccard [''wisata'', ''pantai'', ''bali'', ''indah'']
     [(''indah'', 7), (''bali'', 1), (''pantai'', 1), (''wisata'', 1)] = Inr 1 \<and>
   calculate_jaccard [''museum'', ''sejarah'']
     [(''wisata'', 3), (''pantai'', 2), (''bali'', 1), (''indah'', 1)] = Inr 0"
proof -
  let ?q = "[''wisata'', ''pantai'', ''bali'', ''indah'']"
  let ?d = "[(''wisata'', 3), (''pantai'', 2), (''bali'', 1), (''indah'', 1)] :: term_freq"
  let ?d' = "[(''indah'', 7), (''bali'', 1), (''pantai'', 1), (''wisata'', 1)] :: term_freq"
  have same: "set ?q = set (dict_keys ?d)" "set ?q \<noteq> {}"
    by (simp_all add: dict_keys_def)
  have other: "set (dict_keys ?d') = set (dict_keys ?d)"
    by (auto simp: dict_keys_def)
  have disj: "set [''museum'', ''sejarah''] \<inter> set (dict_keys ?d) = {}"
    by (simp add: dict_keys_def)
  from calculate_jaccard_correct [of ?q ?d] same other
  have "calculate_jaccard ?q ?d = Inr 1" "calculate_jaccard ?q ?d' = Inr 1"
    by auto
  moreover from calculate_jaccard_correct [of "[''museum'', ''sejarah'']" ?d] disj
  have "calculate_jaccard [''museum'', ''sejarah''] ?d = Inr 0"
    by auto
  ultimately show ?thesis by simp
qed

section \<open>Cosine\<close>

subsection \<open>Counter and sums over a dict\<close>

lemma keys_counter_add:
  "map fst (counter_add d w) = (if w \<in> set (map fst d) then map fst d else map fst d @ [w])"
  by (induction d w rule: counter_add.induct) auto

lemma map_of_counter_add:
  "map_of (counter_add d w) x =
     (if x = w then Some (case map_of d w of None \<Rightarrow> 1 | Some n \<Rightarrow> n + 1) else map_of d x)"
  by (induction d w rule: counter_add.induct) auto

lemma foldl_counter_add:
  assumes "distinct (map fst d)"
  shows "distinct (map fst (foldl counter_add d ws)) \<and>
    set (map fst (foldl counter_add d ws)) = set (map fst d) \<union> set ws \<and>
    (\<forall>x. dict_get (foldl counter_add d ws) x 0 = dict_get d x 0 + int (count_list ws x))"
  using assms
proof (induction ws arbitrary: d)
  case Nil
  then show ?case by simp
next
  case (Cons w ws)
  have d: "distinct (map fst (counter_add d w))"
    using Cons.prems by (simp add: keys_counter_add)
  have g: "dict_get (counter_add d w) x 0 = dict_get d x 0 + (if x = w then 1 else 0)" for x
    by (simp add: dict_get_def map_of_counter_add split: option.splits)
  from Cons.IH [OF d] show ?case
    by (auto simp: keys_counter_add g)
qed

lemma Counter_props:
  "distinct (map fst (Counter ws))"
  "set (map fst (Counter ws)) = set ws"
  "dict_get (Counter ws) x 0 = int (count_list ws x)"
  using foldl_counter_add [of "[]" ws] by (simp_all add: Counter_def dict_get_def)

lemma Counter_entry:
  assumes "(w, n) \<in> set (Counter ws)"
  shows "n = int (count_list ws w)"
proof -
  have "map_of (Counter ws) w = Some n"
    using assms Counter_props(1) by simp
  then have "dict_get (Counter ws) w 0 = n" by (simp add: dict_get_def)
  then show ?thesis by (simp add: Counter_props(3))
qed

lemma sum_list_dict:
  fixes g :: "'k \<Rightarrow> 'v \<Rightarrow> real"
  assumes "distinct (map fst d)" "\<forall>(w, n) \<in> set d. g w n = h w"
  shows "sum_list (map (\<lambda>(w, n). g w n) d) = sum h (set (map fst d))"
proof -
  have "map (\<lambda>(w, n). g w n) d = map h (map fst d)"
    using assms(2) by (auto simp: map_eq_conv)
  then have "sum_list (map (\<lambda>(w, n). g w n) d) = sum_list (map h (map fst d))"
    by (simp only:)
  also have "\<dots> = sum h (set (map fst d))"
    by (rule sum_list_distinct_conv_sum_set [OF assms(1)])
  finally show ?thesis .
qed

lemma sum_squares_real:
  "real_of_int (sum_squares (dict_values d)) = sum_list (map (\<lambda>(w, n). (real_of_int n)\<^sup>2) d)"
  by (induction d) (auto simp: sum_squares_def dict_values_def)

lemma dot_loop_real:
  "real_of_int (dot_loop qf d acc) = real_of_int acc +
     sum_list (map (\<lambda>(w, n). case map_of d w of None \<Rightarrow> 0
                                | Some f \<Rightarrow> real_of_int n * real_of_int f) qf)"
  by (induction qf d acc rule: dot_loop.induct) (auto split: option.splits)

lemma Counter_sum_squares:
  "real_of_int (sum_squares (dict_values (Counter ws))) =
     (\<Sum>w \<in> set ws. (real (count_list ws w))\<^sup>2)"
proof -
  have "\<forall>(w, n) \<in> set (Counter ws). (real_of_int n)\<^sup>2 = (real (count_list ws w))\<^sup>2"
    using Counter_entry by fastforce
  from sum_list_dict [OF Counter_props(1), of ws "\<lambda>w n. (real_of_int n)\<^sup>2", OF this]
  show ?thesis by (simp only: sum_squares_real Counter_props(2))
qed

lemma Counter_sum_squares_pos:
  assumes "ws \<noteq> []"
  shows "0 < (\<Sum>w \<in> set ws. (real (count_list ws w))\<^sup>2)"
proof (rule sum_pos)
  show "finite (set ws)" by simp
  show "set ws \<noteq> {}" using assms by simp
  fix w assume "w \<in> set ws"
  then have "0 < count_list ws w" using count_list_0_iff [of ws w] by auto
  then show "0 < (real (count_list ws w))\<^sup>2" by simp
qed

subsection \<open>The value returned\<close>

lemma calculate_cosine_returns:
  "\<exists>sim. calculate_cosine query_words doc_words_freq = Inr sim"
  by (simp add: calculate_cosine_def float_truediv_def float_mul_def fl_eq_0_iff Let_def)

lemma calculate_cosine_value:
  fixes query_words :: "string list" and doc_words_freq :: term_freq
  defines "dot \<equiv> (\<Sum>w \<in> set query_words. case map_of doc_words_freq w of None \<Rightarrow> 0
                      | Some f \<Rightarrow> real (count_list query_words w) * real_of_int f)"
  defines "qm \<equiv> math_sqrt (fl (\<Sum>w \<in> set query_words. (real (count_list query_words w))\<^sup>2))"
  defines "dm \<equiv> math_sqrt (fl (\<Sum>(w, f) \<leftarrow> doc_words_freq. (real_of_int f)\<^sup>2))"
  shows "\<exists>sim. calculate_cosine query_words doc_words_freq = Inr sim \<and>
    sim = (if qm = 0 \<or> dm = 0 then 0 else fl (fl dot / fl (qm * dm))) \<and>
    0 \<le> qm \<and> 0 \<le> dm \<and>
    (set query_words \<inter> set (dict_keys doc_words_freq) = {} \<longrightarrow> sim = 0) \<and>
    ((\<forall>(w, f) \<in> set doc_words_freq. 0 \<le> f) \<longrightarrow> 0 \<le> sim)"
proof -
  let ?qf = "Counter query_words"
  let ?sim = "if qm = 0 \<or> dm = 0 then 0 else fl (fl dot / fl (qm * dm))"
  have d: "real_of_int (dot_loop ?qf doc_words_freq 0) = dot"
  proof -
    have "\<forall>(w, n) \<in> set ?qf.
        (case map_of doc_words_freq w of None \<Rightarrow> 0
         | Some f \<Rightarrow> real_of_int n * real_of_int f) =
        (case map_of doc_words_freq w of None \<Rightarrow> 0
         | Some f \<Rightarrow> real (count_list query_words w) * real_of_int f)"
      using Counter_entry by (fastforce split: option.splits)
    from sum_list_dict [OF Counter_props(1), of query_words
        "\<lambda>w n. case map_of doc_words_freq w of None \<Rightarrow> 0
               | Some f \<Rightarrow> real_of_int n * real_of_int f", OF this]
    show ?thesis
      by (simp only: dot_loop_real Counter_props(2) of_int_0 add_0 dot_def)
  qed
  have q: "math_sqrt (float_of_int (sum_squares (dict_values ?qf))) = qm"
    by (simp only: float_of_int_def Counter_sum_squares qm_def)
  have m: "math_sqrt (float_of_int (sum_squares (dict_values doc_words_freq))) = dm"
    by (simp only: float_of_int_def sum_squares_real dm_def)
  have qm0: "0 \<le> qm"
    unfolding qm_def math_sqrt_def by (intro fl_nonneg real_sqrt_ge_zero sum_nonneg) simp
  have "0 \<le> (\<Sum>(w, f) \<leftarrow> doc_words_freq. (real_of_int f)\<^sup>2)"
    by (intro sum_list_nonneg) auto
  then have dm0: "0 \<le> dm"
    unfolding dm_def math_sqrt_def by (intro fl_nonneg real_sqrt_ge_zero)
  have d': "float_of_int (dot_loop ?qf doc_words_freq 0) = fl dot"
    by (simp only: float_of_int_def d)
  have val: "calculate_cosine query_words doc_words_freq = Inr ?sim"
    by (simp add: calculate_cosine_def Let_def d' q m float_truediv_def float_mul_def
        fl_eq_0_iff)
  have zero: "?sim = 0" if "set query_words \<inter> set (dict_keys doc_words_freq) = {}"
  proof -
    have "map_of doc_words_freq w = None" if "w \<in> set query_words" for w
      using that \<open>set query_words \<inter> set (dict_keys doc_words_freq) = {}\<close>
      by (auto simp: map_of_eq_None_iff dict_keys_def)
    then have "dot = 0" by (simp add: dot_def)
    then show ?thesis by (simp add: fl_zero)
  qed
  have nonneg: "0 \<le> ?sim" if "\<forall>(w, f) \<in> set doc_words_freq. 0 \<le> f"
  proof -
    have "0 \<le> (case map_of doc_words_freq w of None \<Rightarrow> 0
                | Some f \<Rightarrow> real (count_list query_words w) * real_of_int f)" for w
      using that by (auto split: option.splits dest!: map_of_SomeD)
    then have "0 \<le> dot" unfolding dot_def by (intro sum_nonneg)
    then have "0 \<le> fl dot" by (rule fl_nonneg)
    moreover have "0 \<le> fl (qm * dm)" using qm0 dm0 by (intro fl_nonneg) simp
    ultimately have "0 \<le> fl (fl dot / fl (qm * dm))" by (intro fl_nonneg) simp
    then show ?thesis by simp
  qed
  from val qm0 dm0 zero nonneg show ?thesis by blast
qed

subsection \<open>Concrete inputs\<close>

lemma math_sqrt_2: "math_sqrt 2 = 6369051672525773 / 4503599627370496"
  using math_sqrt_between [of 6369051672525773 "- 52" 2]
  by (simp add: powr_minus_divide power2_eq_square)

lemma math_sqrt_3: "math_sqrt 3 = 3900231685776981 / 2251799813685248"
  using math_sqrt_between [of 7800463371553962 "- 52" 3]
  by (simp add: powr_minus_divide power2_eq_square)

lemma float_mul_sqrt_2:
  "float_mul (6369051672525773 / 4503599627370496) (6369051672525773 / 4503599627370496) =
     4503599627370497 / 2251799813685248"
  unfolding float_mul_def
  using fl_between [of 4503599627370497 "- 51"
      "6369051672525773 / 4503599627370496 * (6369051672525773 / 4503599627370496)"]
  by (simp add: powr_minus_divide)

lemma float_mul_sqrt_3:
  "float_mul (3900231685776981 / 2251799813685248) (3900231685776981 / 2251799813685248) =
     6755399441055743 / 2251799813685248"
  unfolding float_mul_def
  using fl_between [of 6755399441055743 "- 51"
      "3900231685776981 / 2251799813685248 * (3900231685776981 / 2251799813685248)"]
  by (simp add: powr_minus_divide)

lemma float_truediv_2:
  "float_truediv 2 (4503599627370497 / 2251799813685248) =
     Inr (4503599627370495 / 4503599627370496)"
  unfolding float_truediv_def
  using fl_between [of 9007199254740990 "- 53" "2 / (4503599627370497 / 2251799813685248)"]
  by (simp add: powr_minus_divide)

lemma float_truediv_3:
  "float_truediv 3 (6755399441055743 / 2251799813685248) =
     Inr (4503599627370497 / 4503599627370496)"
  unfolding float_truediv_def
  using fl_between [of 4503599627370497 "- 52" "3 / (6755399441055743 / 2251799813685248)"]
  by (simp add: powr_minus_divide)

lemma float_of_int_small: "float_of_int 2 = 2" "float_of_int 3 = 3"
  using fl_of_int [of 2] fl_of_int [of 3] by (simp_all add: float_of_int_def)

lemma calculate_cosine_two_terms:
  "calculate_cosine [''aa'', ''bb''] [(''aa'', 1), (''bb'', 1)] =
     Inr (4503599627370495 / 4503599627370496)"
  by (simp add: calculate_cosine_def Counter_def sum_squares_def dict_values_def Let_def
      float_of_int_small math_sqrt_2 float_mul_sqrt_2 float_truediv_2)

lemma calculate_cosine_three_terms:
  "calculate_cosine [''aa'', ''bb'', ''cc''] [(''aa'', 1), (''bb'', 1), (''cc'', 1)] =
     Inr (4503599627370497 / 4503599627370496)"
  by (simp add: calculate_cosine_def Counter_def sum_squares_def dict_values_def Let_def
      float_of_int_small math_sqrt_3 float_mul_sqrt_3 float_truediv_3)

text \<open>
  C5. \<open>calculate_cosine\<close> does compute the dot product over the shared terms divided by
  the product of the two magnitudes, in float arithmetic, and gives 0 when a magnitude is
  0 or no term is shared (lemma \<open>calculate_cosine_value\<close>). But the result is not always
  in \<open>[0, 1]\<close>: for the query \<open>aa bb cc\<close> and a document holding each of the three terms
  once, \<open>math.sqrt(3) * math.sqrt(3)\<close> rounds to \<open>2.9999999999999996\<close> and the quotient
  \<open>3 / 2.9999999999999996\<close> to \<open>1.0000000000000002\<close>, which is \<open>1 + 2\<^sup>-\<^sup>5\<^sup>2\<close>.
\<close>

theorem calculate_cosine_exceeds_one:
  "calculate_cosine [''aa'', ''bb'', ''cc''] [(''aa'', 1), (''bb'', 1), (''cc'', 1)] =
     Inr (1 + 1 / 2 ^ 52) \<and>
   math_sqrt (float_of_int 3) = 3900231685776981 / 2251799813685248 \<and>
   float_mul (math_sqrt (float_of_int 3)) (math_sqrt (float_of_int 3)) = 3 - 1 / 2 ^ 51 \<and>
   (1 :: real) < 1 + 1 / 2 ^ 52"
  by (simp add: calculate_cosine_three_terms float_of_int_small math_sqrt_3 float_mul_sqrt_3)

subsection \<open>Documents proportional to the query\<close>

text \<open>
  C6 as stated fails: for the query \<open>aa bb\<close> and the document holding each of the two
  terms once (the multiple \<open>k = 1\<close>), \<open>math.sqrt(2) * math.sqrt(2)\<close> rounds to
  \<open>2.0000000000000004\<close> and the result is \<open>0.9999999999999998\<close>, which is \<open>1 - 2\<^sup>-\<^sup>5\<^sup>2\<close>.
  For the empty query and the empty document both magnitudes are 0 and the result is 0.
\<close>

theorem calculate_cosine_scalar_multiple_counterexample:
  "[''aa'', ''bb''] \<noteq> [] \<and>
   dict_wf [(''aa'', 1 :: int), (''bb'', 1)] \<and>
   set (dict_keys [(''aa'', 1 :: int), (''bb'', 1)]) = set [''aa'', ''bb''] \<and>
   list_all (\<lambda>(w, f). real_of_int f = 1 * real (count_list [''aa'', ''bb''] w))
     [(''aa'', 1), (''bb'', 1)] \<and>
   calculate_cosine [''aa'', ''bb''] [(''aa'', 1), (''bb'', 1)] = Inr (1 - 1 / 2 ^ 52) \<and>
   calculate_cosine [''aa'', ''bb''] [(''aa'', 1), (''bb'', 1)] \<noteq> Inr 1 \<and>
   calculate_cosine [] [] = Inr 0"
proof -
  have "calculate_cosine [] [] = Inr 0"
    by (simp add: calculate_cosine_def Counter_def sum_squares_def dict_values_def
        float_of_int_def math_sqrt_def fl_zero)
  then show ?thesis
    by (simp add: calculate_cosine_two_terms dict_wf_def dict_keys_def)
qed

text \<open>
  C6, as the code has it. When the document table is a positive multiple \<open>k\<close> of the
  term counts of a non-empty query, over the same terms, and the sums of the squared
  counts of the query and of the document are below \<open>2\<^sup>1\<^sup>0\<^sup>2\<^sup>3\<close> (beyond the float range
  \<open>math.sqrt\<close> raises \<open>OverflowError\<close>), \<open>calculate_cosine\<close> returns 1 up to the rounding of
  its seven float operations: a value within \<open>2\<^sup>-\<^sup>5\<^sup>0\<close> of 1. Every conversion from \<open>int\<close> and
  every float operation on the way is in range, so nothing raises and no infinity or
  subnormal number arises.
\<close>

theorem calculate_cosine_scalar_multiple:
  fixes query_words :: "string list" and doc_words_freq :: term_freq and k :: real
  defines "q_squares \<equiv> sum_squares (dict_values (Counter query_words))"
  defines "d_squares \<equiv> sum_squares (dict_values doc_words_freq)"
  defines "dot_product \<equiv> dot_loop (Counter query_words) doc_words_freq 0"
  defines "query_magnitude \<equiv> math_sqrt (float_of_int q_squares)"
  defines "doc_magnitude \<equiv> math_sqrt (float_of_int d_squares)"
  assumes "query_words \<noteq> []"
    and "dict_wf doc_words_freq"
    and "set (dict_keys doc_words_freq) = set query_words"
    and "0 < k"
    and "\<forall>(w, f) \<in> set doc_words_freq. real_of_int f = k * real (count_list query_words w)"
    and "q_squares < 2 ^ 1023"
    and "d_squares < 2 ^ 1023"
  shows "(\<exists>sim. calculate_cosine query_words doc_words_freq = Inr sim \<and> \<bar>sim - 1\<bar> \<le> 1 / 2 ^ 50) \<and>
    in_float_range (real_of_int q_squares) \<and>
    in_float_range (sqrt (float_of_int q_squares)) \<and>
    in_float_range (real_of_int d_squares) \<and>
    in_float_range (sqrt (float_of_int d_squares)) \<and>
    in_float_range (real_of_int dot_product) \<and>
    in_float_range (query_magnitude * doc_magnitude) \<and>
    in_float_range (float_of_int dot_product / float_mul query_magnitude doc_magnitude)"
proof -
  let ?qf = "Counter query_words"
  let ?c = "\<lambda>w. real (count_list query_words w)"
  define S where "S = (\<Sum>w \<in> set query_words. (?c w)\<^sup>2)"
  define B :: real where "B = 2 ^ 1023"
  have dk: "distinct (map fst doc_words_freq)" and ks: "set (map fst doc_words_freq) = set query_words"
    using assms(7,8) by (simp_all add: dict_wf_def dict_keys_def)
  have Spos: "0 < S" unfolding S_def using assms(6) by (rule Counter_sum_squares_pos)
  have qS: "real_of_int q_squares = S"
    unfolding S_def q_squares_def by (rule Counter_sum_squares)
  have dS: "real_of_int d_squares = k\<^sup>2 * S"
  proof -
    have "\<forall>(w, f) \<in> set doc_words_freq. (real_of_int f)\<^sup>2 = (k * ?c w)\<^sup>2"
      using assms(10) by auto
    from sum_list_dict [OF dk, of "\<lambda>w f. (real_of_int f)\<^sup>2", OF this]
    have "real_of_int (sum_squares (dict_values doc_words_freq)) =
        (\<Sum>w \<in> set query_words. (k * ?c w)\<^sup>2)"
      by (simp only: sum_squares_real ks)
    also have "\<dots> = k\<^sup>2 * S"
      by (simp add: S_def power_mult_distrib sum_distrib_left)
    finally show ?thesis by (simp only: d_squares_def)
  qed
  have dot: "real_of_int dot_product = k * S"
  proof -
    have "(case map_of doc_words_freq w of None \<Rightarrow> 0
           | Some f \<Rightarrow> real_of_int n * real_of_int f) = k * (?c w)\<^sup>2"
      if "(w, n) \<in> set ?qf" for w n
    proof -
      from that have n: "n = int (count_list query_words w)" by (rule Counter_entry)
      from that have "w \<in> set (map fst ?qf)" by force
      then have "w \<in> set (map fst doc_words_freq)" by (simp only: Counter_props(2) ks)
      then obtain f where f: "(w, f) \<in> set doc_words_freq" by auto
      then have "map_of doc_words_freq w = Some f" using dk by simp
      moreover from f assms(10) have "real_of_int f = k * ?c w" by auto
      ultimately show ?thesis by (simp add: n power2_eq_square)
    qed
    then have "\<forall>(w, n) \<in> set ?qf.
        (case map_of doc_words_freq w of None \<Rightarrow> 0
         | Some f \<Rightarrow> real_of_int n * real_of_int f) = k * (?c w)\<^sup>2"
      by auto
    from sum_list_dict [OF Counter_props(1), of query_words
        "\<lambda>w n. case map_of doc_words_freq w of None \<Rightarrow> 0
               | Some f \<Rightarrow> real_of_int n * real_of_int f", OF this]
    have "real_of_int (dot_loop ?qf doc_words_freq 0) =
        (\<Sum>w \<in> set query_words. k * (?c w)\<^sup>2)"
      by (simp only: dot_loop_real Counter_props(2) of_int_0 add_0)
    then show ?thesis
      by (simp add: S_def sum_distrib_left dot_product_def)
  qed
  have Tpos: "0 < k\<^sup>2 * S" using assms(9) Spos by simp
  have "sqrt (k\<^sup>2 * S) = k * sqrt S"
    using assms(9) by (simp add: real_sqrt_mult)
  then have prod: "k * S = sqrt S * sqrt (k\<^sup>2 * S)"
    using Spos by simp
  note r = cosine_rounding [OF Spos Tpos prod]
  let ?qm = "math_sqrt (fl S)" and ?dm = "math_sqrt (fl (k\<^sup>2 * S))"
  have qm: "query_magnitude = ?qm" and dm: "doc_magnitude = ?dm"
    by (simp_all only: query_magnitude_def doc_magnitude_def float_of_int_def qS dS)
  have p: "fl (?qm * ?dm) \<noteq> 0" using r(1,2) by (simp add: fl_eq_0_iff)
  have "calculate_cosine query_words doc_words_freq =
      Inr (fl (fl (k * S) / fl (?qm * ?dm)))"
    using r(1,2) p qS dS dot
    by (simp add: calculate_cosine_def Let_def float_of_int_def float_truediv_def
        float_mul_def q_squares_def d_squares_def dot_product_def)
  with roundings_7 [OF r(3)]
  have val: "\<exists>sim. calculate_cosine query_words doc_words_freq = Inr sim \<and>
      \<bar>sim - 1\<bar> \<le> 1 / 2 ^ 50"
    by simp
  have int_bounds: "1 \<le> real_of_int n \<and> real_of_int n \<le> B" if "0 < real_of_int n" "n < 2 ^ 1023"
    for n :: int
  proof -
    from that(1) have "1 \<le> n" by simp
    then have "1 \<le> real_of_int n" by simp
    moreover from that(2) have "real_of_int n < real_of_int (2 ^ 1023)"
      by (simp only: of_int_less_iff)
    then have "real_of_int n \<le> B" by (simp add: B_def)
    ultimately show ?thesis by simp
  qed
  have S: "1 \<le> S" "S \<le> B"
    using int_bounds [of q_squares] Spos assms(11) by (simp_all add: qS)
  have T: "1 \<le> k\<^sup>2 * S" "k\<^sup>2 * S \<le> B"
    using int_bounds [of d_squares] Tpos assms(12) by (simp_all add: dS)
  have B1: "1 \<le> B" using S by simp
  have sqrt_bounds: "1 \<le> sqrt x \<and> sqrt x \<le> B" if "1 \<le> x" "x \<le> B" for x
  proof -
    have a: "1 \<le> sqrt x" using that(1) by simp
    then have "sqrt x * 1 \<le> sqrt x * sqrt x" by (intro mult_left_mono) simp_all
    then have "sqrt x \<le> x" using that(1) by simp
    with that(2) a show ?thesis by simp
  qed
  have ab: "1 \<le> sqrt S * sqrt (k\<^sup>2 * S)" "sqrt S * sqrt (k\<^sup>2 * S) \<le> B"
  proof -
    have "1 * 1 \<le> sqrt S * sqrt (k\<^sup>2 * S)"
      using sqrt_bounds [OF S] sqrt_bounds [OF T] by (intro mult_mono) simp_all
    then show "1 \<le> sqrt S * sqrt (k\<^sup>2 * S)" by simp
    have "sqrt S * sqrt (k\<^sup>2 * S) \<le> sqrt B * sqrt B"
      using S T by (intro mult_mono) simp_all
    then show "sqrt S * sqrt (k\<^sup>2 * S) \<le> B" using B1 by simp
  qed
  have top: "B * (3 / 2) = 3 * 2 ^ 1022" by (simp add: B_def)
  have rangeI: "in_float_range x" if "1 \<le> y" "y \<le> B" "roundings n y x" "n \<le> 7" for x y n
  proof -
    have y: "0 < y" using that(1) by simp
    note b = roundings_bounds [OF y that(3,4)]
    have "1 / 2 \<le> y / 2" using that(1) by simp
    with b(1) have lo: "1 / 2 \<le> x" by simp
    have "y * (3 / 2) \<le> B * (3 / 2)" using that(2) by simp
    with b(2) have "x \<le> B * (3 / 2)" by simp
    then have "x \<le> 3 * 2 ^ 1022" by (simp only: top)
    with lo show ?thesis by (rule in_float_rangeI)
  qed
  have sa: "1 \<le> sqrt S" "sqrt S \<le> B" using sqrt_bounds [OF S] by simp_all
  have sb: "1 \<le> sqrt (k\<^sup>2 * S)" "sqrt (k\<^sup>2 * S) \<le> B" using sqrt_bounds [OF T] by simp_all
  have seven: "(0 :: nat) \<le> 7" "(1 :: nat) \<le> 7" "(4 :: nat) \<le> 7" "(6 :: nat) \<le> 7"
    by simp_all
  have r1: "in_float_range (real_of_int q_squares)"
    unfolding qS by (rule rangeI [OF S roundings_refl seven(1)])
  have r2: "in_float_range (sqrt (float_of_int q_squares))"
    unfolding float_of_int_def qS by (rule rangeI [OF sa r(4) seven(2)])
  have r3: "in_float_range (real_of_int d_squares)"
    unfolding dS by (rule rangeI [OF T roundings_refl seven(1)])
  have r4: "in_float_range (sqrt (float_of_int d_squares))"
    unfolding float_of_int_def dS by (rule rangeI [OF sb r(5) seven(2)])
  have r5: "in_float_range (real_of_int dot_product)"
    unfolding dot prod by (rule rangeI [OF ab roundings_refl seven(1)])
  have r6: "in_float_range (query_magnitude * doc_magnitude)"
    unfolding qm dm by (rule rangeI [OF ab r(6) seven(3)])
  have r7: "in_float_range (float_of_int dot_product / float_mul query_magnitude doc_magnitude)"
    unfolding qm dm float_of_int_def float_mul_def dot
    by (rule rangeI [OF order_refl B1 r(7) seven(4)])
  from val r1 r2 r3 r4 r5 r6 r7 show ?thesis by blast
qed

theorem calculate_cosine_scalar_multiple_witness:
  "[''wisata'', ''wisata'', ''wisata'', ''pantai'', ''pantai'', ''bali'', ''indah''] \<noteq> [] \<and>
   dict_wf [(''wisata'', 3 :: int), (''pantai'', 2), (''bali'', 1), (''indah'', 1)] \<and>
   set (dict_keys [(''wisata'', 3 :: int), (''pantai'', 2), (''bali'', 1), (''indah'', 1)]) =
     set [''wisata'', ''wisata'', ''wisata'', ''pantai'', ''pantai'', ''bali'', ''indah''] \<and>
   (0 :: real) < 1 \<and>
   list_all (\<lambda>(w, f). real_of_int f = 1 * real (count_list
       [''wisata'', ''wisata'', ''wisata'', ''pantai'', ''pantai'', ''bali'', ''indah''] w))
     [(''wisata'', 3), (''pantai'', 2), (''bali'', 1), (''indah'', 1)] \<and>
   sum_squares (dict_values (Counter
       [''wisata'', ''wisata'', ''wisata'', ''pantai'', ''pantai'', ''bali'', ''indah''])) = 15 \<and>
   sum_squares (dict_values
       [(''wisata'', 3 :: int), (''pantai'', 2), (''bali'', 1), (''indah'', 1)]) = 15 \<and>
   (15 :: int) < 2 ^ 1023 \<and>
   (\<exists>sim. calculate_cosine
       [''wisata'', ''wisata'', ''wisata'', ''pantai'', ''pantai'', ''bali'', ''indah'']
       [(''wisata'', 3), (''pantai'', 2), (''bali'', 1), (''indah'', 1)] = Inr sim \<and>
     \<bar>sim - 1\<bar> \<le> 1 / 2 ^ 50) \<and>
   in_float_range (real_of_int 15)"
proof -
  let ?q = "[''wisata'', ''wisata'', ''wisata'', ''pantai'', ''pantai'', ''bali'', ''indah'']"
  let ?d = "[(''wisata'', 3), (''pantai'', 2), (''bali'', 1), (''indah'', 1)] :: term_freq"
  have a: "?q \<noteq> []" by simp
  have b: "dict_wf ?d" by (simp add: dict_wf_def)
  have c: "set (dict_keys ?d) = set ?q" by (auto simp: dict_keys_def)
  have d: "(0 :: real) < 1" by simp
  have e: "\<forall>(w, f) \<in> set ?d. real_of_int f = 1 * real (count_list ?q w)" by simp
  have qs: "sum_squares (dict_values (Counter ?q)) = 15"
    by (simp add: Counter_def sum_squares_def dict_values_def)
  have ds: "sum_squares (dict_values ?d) = 15"
    by (simp add: sum_squares_def dict_values_def)
  have small: "(15 :: int) < 2 ^ 1023" by simp
  have f: "sum_squares (dict_values (Counter ?q)) < 2 ^ 1023"
    unfolding qs by (rule small)
  have g: "sum_squares (dict_values ?d) < 2 ^ 1023"
    unfolding ds by (rule small)
  note t = calculate_cosine_scalar_multiple [OF a b c d e f g]
  from t have "\<exists>sim. calculate_cosine ?q ?d = Inr sim \<and> \<bar>sim - 1\<bar> \<le> 1 / 2 ^ 50"
    by (rule conjunct1)
  moreover from t have "in_float_range (real_of_int 15)"
    unfolding qs by (elim conjE)
  moreover have "list_all (\<lambda>(w, f). real_of_int f = 1 * real (count_list ?q w)) ?d"
    using e by (simp only: list_all_iff)
  ultimately show ?thesis using a b c d qs ds small by (intro conjI)
qed

section \<open>BM25 normalisation\<close>

lemma py_max_eq_Max:
  assumes "xs \<noteq> []"
  shows "py_max xs = Inr (Max (set xs))"
proof -
  obtain y ys where xs: "xs = y # ys" using assms by (cases xs) auto
  have "(\<lambda>x s. max s x) = (max :: real \<Rightarrow> real \<Rightarrow> real)"
    by (intro ext) (rule max.commute)
  then have "foldl max y ys = fold max ys y"
    by (simp add: foldl_conv_fold)
  then show ?thesis
    using Max.set_eq_fold [of y ys] by (simp add: xs)
qed

lemma py_min_eq_Min:
  assumes "xs \<noteq> []"
  shows "py_min xs = Inr (Min (set xs))"
proof -
  obtain y ys where xs: "xs = y # ys" using assms by (cases xs) auto
  have "(\<lambda>x s. min s x) = (min :: real \<Rightarrow> real \<Rightarrow> real)"
    by (intro ext) (rule min.commute)
  then have "foldl min y ys = fold min ys y"
    by (simp add: foldl_conv_fold)
  then show ?thesis
    using Min.set_eq_fold [of y ys] by (simp add: xs)
qed

text \<open>\<open>max\<close> and \<open>min\<close> are only called on a non-empty sequence, so they do not raise.\<close>

lemma calculate_bm25_eq:
  "calculate_bm25 c query_words =
     (let raw_scores = bm25_model c query_words;
          max_score = (if raw_scores = [] then 1 else Max (set raw_scores));
          min_score = (if raw_scores = [] then 0 else Min (set raw_scores));
          score_range = float_sub max_score min_score
      in if score_range = 0
         then dict_comp (bm25_id_map c) (\<lambda>i. Inr 0) [0..<length raw_scores] Map.empty
         else dict_comp (bm25_id_map c)
                (\<lambda>i. float_truediv (float_sub (raw_scores ! i) min_score) score_range)
                [0..<length raw_scores] Map.empty)"
  by (cases "bm25_model c query_words = []")
    (simp_all add: calculate_bm25_def Let_def py_max_eq_Max py_min_eq_Min)

lemma dict_comp_returns:
  assumes "\<forall>i \<in> set is. i < length id_map \<and> (\<exists>v. val i = Inr v)"
  shows "\<exists>m'. dict_comp id_map val is m = Inr m'"
  using assms
proof (induction "is" arbitrary: m)
  case Nil
  show ?case by simp
next
  case (Cons i "is")
  then obtain v where "val i = Inr v" "i < length id_map" by auto
  with Cons show ?case by simp
qed

lemma dict_comp_fold:
  assumes "\<forall>i \<in> set is. i < length id_map \<and> val i = Inr (v i)"
  shows "dict_comp id_map val is m = Inr (fold (\<lambda>i m. m(id_map ! i \<mapsto> v i)) is m)"
  using assms by (induction "is" arbitrary: m) simp_all

lemma fold_upd_upt:
  assumes "distinct id_map" "n \<le> length id_map"
  shows "dom (fold (\<lambda>i m. m(id_map ! i \<mapsto> v i)) [0..<n] Map.empty) = set (take n id_map) \<and>
    (\<forall>i < n. fold (\<lambda>i m. m(id_map ! i \<mapsto> v i)) [0..<n] Map.empty (id_map ! i) = Some (v i))"
proof -
  define F where "F k = fold (\<lambda>i m. m(id_map ! i \<mapsto> v i)) [0..<k] Map.empty" for k
  have F0: "F 0 = Map.empty" by (simp add: F_def)
  have FS: "F (Suc k) = (F k)(id_map ! k \<mapsto> v k)" for k by (simp add: F_def)
  have "dom (F n) = set (take n id_map) \<and> (\<forall>i < n. F n (id_map ! i) = Some (v i))"
    using assms(2)
  proof (induction n)
    case 0
    show ?case by (simp add: F0)
  next
    case (Suc n)
    then have n: "n < length id_map" and IH: "dom (F n) = set (take n id_map)"
      "\<forall>i < n. F n (id_map ! i) = Some (v i)"
      by simp_all
    have ne: "id_map ! i \<noteq> id_map ! n" if "i < n" for i
      using that n assms(1) by (simp add: nth_eq_iff_index_eq)
    have "\<forall>i < Suc n. F (Suc n) (id_map ! i) = Some (v i)"
      using IH(2) ne by (auto simp: less_Suc_eq FS)
    moreover have "dom (F (Suc n)) = set (take (Suc n) id_map)"
      using IH(1) n by (simp add: take_Suc_conv_app_nth FS)
    ultimately show ?case by blast
  qed
  then show ?thesis unfolding F_def .
qed

lemma dict_comp_upt:
  assumes "distinct id_map" "n \<le> length id_map" "\<forall>i < n. val i = Inr (v i)"
  shows "\<exists>m. dict_comp id_map val [0..<n] Map.empty = Inr m \<and>
    dom m = set (take n id_map) \<and> (\<forall>i < n. m (id_map ! i) = Some (v i))"
proof -
  have "\<forall>i \<in> set [0..<n]. i < length id_map \<and> val i = Inr (v i)"
    using assms(2,3) by auto
  from dict_comp_fold [OF this] fold_upd_upt [OF assms(1,2), of v] show ?thesis
    by simp
qed

lemma calculate_bm25_returns:
  assumes "length (bm25_model c query_words) \<le> length (bm25_id_map c)"
  shows "\<exists>scores. calculate_bm25 c query_words = Inr scores"
proof -
  let ?raw = "bm25_model c query_words"
  have idx: "\<forall>i \<in> set [0..<length ?raw]. i < length (bm25_id_map c)"
    using assms by auto
  show ?thesis
  proof (cases "float_sub (if ?raw = [] then 1 else Max (set ?raw))
                  (if ?raw = [] then 0 else Min (set ?raw)) = 0")
    case True
    then show ?thesis
      using dict_comp_returns [of "[0..<length ?raw]" "bm25_id_map c" "\<lambda>i. Inr 0" Map.empty] idx
      by (simp add: calculate_bm25_eq Let_def)
  next
    case False
    then show ?thesis
      using dict_comp_returns [of "[0..<length ?raw]" "bm25_id_map c" _ Map.empty] idx
      by (simp add: calculate_bm25_eq Let_def float_truediv_def)
  qed
qed

text \<open>
  C1. When the external model yields one raw score per entry of \<open>bm25_id_map\<close> and the
  identifiers there are distinct (as \<open>_build_bm25\<close> makes them from the keys of the
  index), \<open>calculate_bm25\<close> returns a mapping defined exactly on these identifiers. With
  \<open>max\<close> and \<open>min\<close> the largest and smallest raw score, the document at position \<open>i\<close> gets
  0 when \<open>max = min\<close>, and otherwise \<open>(raw[i] - min) / (max - min)\<close> in float arithmetic
  (the subtractions and the division each rounded). Every score lies between 0 and 1;
  unless all raw scores are equal, a document with the largest raw score gets exactly 1,
  and one with the smallest gets exactly 0.
\<close>

theorem calculate_bm25_normalized:
  fixes c :: calculator and query_words :: "string list"
  defines "raw \<equiv> bm25_model c query_words"
  defines "mx \<equiv> Max (set raw)" and "mn \<equiv> Min (set raw)"
  assumes "length raw = length (bm25_id_map c)" and "distinct (bm25_id_map c)"
  shows "\<exists>scores. calculate_bm25 c query_words = Inr scores \<and>
    dom scores = set (bm25_id_map c) \<and>
    (\<forall>i < length raw. \<exists>s. scores (bm25_id_map c ! i) = Some s \<and>
       (mx = mn \<longrightarrow> s = 0) \<and>
       (mx \<noteq> mn \<longrightarrow> float_truediv (float_sub (raw ! i) mn) (float_sub mx mn) = Inr s \<and>
                   s = fl (fl (raw ! i - mn) / fl (mx - mn))) \<and>
       0 \<le> s \<and> s \<le> 1 \<and>
       (mx \<noteq> mn \<and> raw ! i = mx \<longrightarrow> s = 1) \<and>
       (raw ! i = mn \<longrightarrow> s = 0))"
proof (cases "raw = []")
  case True
  then have "calculate_bm25 c query_words = Inr Map.empty"
    by (simp add: calculate_bm25_eq raw_def [symmetric] Let_def float_sub_def fl_one)
  with True assms(4) show ?thesis by simp
next
  case False
  let ?ids = "bm25_id_map c"
  let ?range = "float_sub mx mn"
  have mxmn: "Max (set raw) = mx" "Min (set raw) = mn"
    by (simp_all add: mx_def mn_def)
  have r0: "?range = 0 \<longleftrightarrow> mx = mn"
    by (simp add: float_sub_def fl_eq_0_iff)
  have bounds: "mn \<le> raw ! i" "raw ! i \<le> mx" if "i < length raw" for i
    using that by (simp_all add: mx_def mn_def)
  have len: "length raw \<le> length ?ids" using assms(4) by simp
  have tk: "take (length raw) ?ids = ?ids" using assms(4) by simp
  show ?thesis
  proof (cases "mx = mn")
    case True
    then have "calculate_bm25 c query_words =
        dict_comp ?ids (\<lambda>i. Inr 0) [0..<length raw] Map.empty"
      using False r0 by (simp add: calculate_bm25_eq raw_def [symmetric] Let_def mxmn)
    moreover from dict_comp_upt [OF assms(5) len, of "\<lambda>i. Inr 0" "\<lambda>i. 0"]
    obtain m where "dict_comp ?ids (\<lambda>i. Inr 0) [0..<length raw] Map.empty = Inr m"
      "dom m = set ?ids" "\<forall>i < length raw. m (?ids ! i) = Some 0"
      by (auto simp: tk)
    ultimately show ?thesis using True
      by (intro exI [of _ m]) simp
  next
    case neq: False
    let ?v = "\<lambda>i. fl (fl (raw ! i - mn) / fl (mx - mn))"
    let ?val = "\<lambda>i. float_truediv (float_sub (raw ! i) mn) ?range"
    have val: "?val i = Inr (?v i)" for i
      using neq r0 by (simp add: float_truediv_def float_sub_def)
    have "calculate_bm25 c query_words = dict_comp ?ids ?val [0..<length raw] Map.empty"
      using False neq r0 by (simp add: calculate_bm25_eq raw_def [symmetric] Let_def mxmn)
    moreover from dict_comp_upt [OF assms(5) len, of ?val ?v] val
    obtain m where m: "dict_comp ?ids ?val [0..<length raw] Map.empty = Inr m"
      "dom m = set ?ids" "\<forall>i < length raw. m (?ids ! i) = Some (?v i)"
      by (auto simp: tk)
    moreover have "0 \<le> ?v i \<and> ?v i \<le> 1 \<and> (raw ! i = mx \<longrightarrow> ?v i = 1) \<and>
        (raw ! i = mn \<longrightarrow> ?v i = 0)" if i: "i < length raw" for i
    proof -
      have rpos: "0 < fl (mx - mn)"
        using bounds [OF i] neq by (intro fl_pos) simp
      have n0: "0 \<le> fl (raw ! i - mn)"
        using bounds(1) [OF i] by (intro fl_nonneg) simp
      have n1: "fl (raw ! i - mn) \<le> fl (mx - mn)"
        using bounds(2) [OF i] by (intro fl_mono) simp
      have "fl 0 \<le> ?v i" using n0 rpos by (intro fl_mono) simp
      moreover have "?v i \<le> fl 1" using n1 rpos by (intro fl_mono) simp
      moreover have "?v i = 1" if "raw ! i = mx"
        using that rpos by (simp add: fl_one)
      moreover have "?v i = 0" if "raw ! i = mn"
        using that by (simp add: fl_zero)
      ultimately show ?thesis by (simp add: fl_zero fl_one)
    qed
    ultimately show ?thesis using neq val
      by (intro exI [of _ m]) (simp add: float_sub_def)
  qed
qed

lemma example_bm25:
  "calculate_bm25 example_calculator qw = Inr [1 \<mapsto> 0, 5 \<mapsto> 1]"
proof -
  have "fl 3 = 3" using fl_of_int [of 3] by simp
  then show ?thesis
    by (simp add: calculate_bm25_def example_calculator_def
        float_sub_def float_truediv_def fl_zero fl_one Let_def upt_rec)
qed

theorem calculate_bm25_normalized_witness:
  "length (bm25_model example_calculator [''pantai'', ''bali'']) =
     length (bm25_id_map example_calculator) \<and>
   distinct (bm25_id_map example_calculator) \<and>
   calculate_bm25 example_calculator [''pantai'', ''bali''] = Inr [1 \<mapsto> 0, 5 \<mapsto> 1]"
proof -
  have a: "length (bm25_model example_calculator [''pantai'', ''bali'']) =
     length (bm25_id_map example_calculator)"
    and b: "distinct (bm25_id_map example_calculator)"
    by (simp_all add: example_calculator_def)
  from calculate_bm25_normalized [OF a b]
  obtain scores where s: "calculate_bm25 example_calculator [''pantai'', ''bali''] = Inr scores"
    "dom scores = set (bm25_id_map example_calculator)"
    by blast
  with a b show ?thesis by (simp add: example_bm25)
qed

section \<open>Search\<close>

subsection \<open>The loop and its result\<close>

lemma doc_similarity_returns:
  "\<exists>sim. doc_similarity algorithm query_words bm25_scores doc_id doc_words_freq = Inr sim"
  using calculate_jaccard_returns calculate_cosine_returns
  by (simp add: doc_similarity_def)

lemma search_loop_emitted:
  "search_loop c qw alg cat t bm items results = Inr rs \<Longrightarrow>
   rs = results @ List.map_filter (emitted c qw alg cat t bm) items"
proof (induction c qw alg cat t bm items results rule: search_loop.induct)
  case (1 c qw alg cat t bm results)
  then show ?case by (simp add: List.map_filter_simps)
next
  case (2 c qw alg cat t bm doc_id freq rest results)
  show ?case
  proof (cases "category_skip cat (doc_data_of c doc_id)")
    case True
    with 2 show ?thesis
      by (simp add: emitted_def List.map_filter_simps)
  next
    case False
    show ?thesis
    proof (cases "doc_similarity alg qw bm doc_id freq")
      case (Inl e)
      with False "2.prems" show ?thesis by simp
    next
      case (Inr sim)
      with False 2 show ?thesis
        by (cases "t \<le> sim") (simp_all add: emitted_def List.map_filter_simps)
    qed
  qed
qed

lemma search_loop_returns:
  "\<exists>rs. search_loop c qw alg cat t bm items results = Inr rs"
proof (induction items arbitrary: results)
  case Nil
  show ?case by simp
next
  case (Cons item items)
  obtain doc_id freq where item: "item = (doc_id, freq)" by (cases item)
  obtain sim where sim: "doc_similarity alg qw bm doc_id freq = Inr sim"
    using doc_similarity_returns by blast
  show ?case
    using Cons.IH by (simp add: item sim Let_def)
qed

lemma search_loop_eq:
  "search_loop c qw alg cat t bm items results =
     Inr (results @ List.map_filter (emitted c qw alg cat t bm) items)"
  using search_loop_returns [of c qw alg cat t bm items results] search_loop_emitted
  by fastforce

lemma search_eq:
  assumes "preprocess_query query \<noteq> []"
    and "(if algorithm = ''bm25'' then calculate_bm25 c (preprocess_query query)
          else Inr Map.empty) = Inr bm"
  shows "search c query algorithm cat t =
     Inr (sort_results (List.map_filter (emitted c (preprocess_query query) algorithm cat t bm)
            (inverted_index c)))"
  using assms by (simp add: search_def search_loop_eq Let_def)

lemma search_returns:
  assumes "algorithm = ''bm25'' \<longrightarrow>
     length (bm25_model c (preprocess_query query)) \<le> length (bm25_id_map c)"
  shows "\<exists>rs. search c query algorithm cat t = Inr rs"
proof (cases "preprocess_query query = []")
  case True
  then show ?thesis by (simp add: search_def)
next
  case False
  obtain bm where "(if algorithm = ''bm25'' then calculate_bm25 c (preprocess_query query)
          else Inr Map.empty) = Inr bm"
    using assms calculate_bm25_returns by (cases "algorithm = ''bm25''") auto
  from search_eq [OF False this] show ?thesis by blast
qed

lemma search_Inr_cases:
  assumes "search c query algorithm cat t = Inr rs"
  obtains (empty) "preprocess_query query = []" "rs = []"
  | (scored) bm where "preprocess_query query \<noteq> []"
      "(if algorithm = ''bm25'' then calculate_bm25 c (preprocess_query query)
        else Inr Map.empty) = Inr bm"
      "rs = sort_results (List.map_filter (emitted c (preprocess_query query) algorithm cat t bm)
              (inverted_index c))"
proof (cases "preprocess_query query = []")
  case True
  with assms empty show ?thesis by (simp add: search_def)
next
  case False
  show ?thesis
  proof (cases "if algorithm = ''bm25'' then calculate_bm25 c (preprocess_query query)
        else Inr Map.empty")
    case (Inl e)
    with False assms show ?thesis by (simp add: search_def Let_def split: if_splits)
  next
    case (Inr bm)
    from search_eq [OF False Inr] assms scored [OF False Inr] show ?thesis by simp
  qed
qed

lemma content_id_emitted:
  "emitted c qw alg cat t bm item = Some r \<Longrightarrow> content_id r = fst item"
  by (cases item) (auto simp: emitted_def make_result_def split: if_splits sum.splits)

lemma emitted_SomeD:
  assumes "emitted c qw alg cat t bm (doc_id, freq) = Some r"
  shows "\<not> category_skip cat (doc_data_of c doc_id)"
    and "doc_similarity alg qw bm doc_id freq = Inr (similarity r)"
    and "t \<le> similarity r"
    and "content_id r = doc_id"
  using assms by (auto simp: emitted_def make_result_def split: if_splits sum.splits)

lemma emitted_Some_iff:
  "(\<exists>r. emitted c qw alg cat t bm (doc_id, freq) = Some r) \<longleftrightarrow>
   \<not> category_skip cat (doc_data_of c doc_id) \<and>
   (\<exists>sim. doc_similarity alg qw bm doc_id freq = Inr sim \<and> t \<le> sim)"
  by (auto simp: emitted_def split: if_splits sum.splits)

lemma set_map_filter: "set (List.map_filter f xs) = {y. \<exists>x \<in> set xs. f x = Some y}"
  by (induction xs) (auto simp: List.map_filter_simps split: option.splits)

lemma map_content_id_emitted:
  "map content_id (List.map_filter (emitted c qw alg cat t bm) items) =
   map fst (filter (\<lambda>item. emitted c qw alg cat t bm item \<noteq> None) items)"
  by (induction items) (auto simp: List.map_filter_simps content_id_emitted split: option.splits)

lemma set_sort_results: "set (sort_results rs) = set rs"
  by (simp add: sort_results_def)

lemma mset_sort_results: "mset (sort_results rs) = mset rs"
  by (simp add: sort_results_def)

lemma sorted_sort_results:
  "sorted_wrt (\<lambda>a b. similarity a \<ge> similarity b) (sort_results rs)"
proof -
  have "sorted (map (\<lambda>x. - similarity x) (sort_results rs))"
    by (simp add: sort_results_def)
  then show ?thesis
    by (simp add: sorted_map)
qed

lemma sort_results_equal_keys:
  assumes "\<forall>r \<in> set rs. similarity r = 0"
  shows "sort_results rs = rs"
proof -
  have "sorted (map (\<lambda>x. - similarity x) rs)"
    using assms by (induction rs) simp_all
  then show ?thesis
    unfolding sort_results_def by (rule sort_key_id_if_sorted)
qed

subsection \<open>The worked example, evaluated\<close>

lemma example_search_bm25:
  "search example_calculator ''Pantai  a bali'' ''bm25'' None 0 =
     Inr [make_result 5 [(''category'', ''Sejarah''), (''title'', ''Museum Nasional'')] 1,
          make_result 1 [(''category'', ''Wisata''), (''title'', ''Pantai Bali'')] 0]"
proof -
  have q: "preprocess_query ''Pantai  a bali'' \<noteq> []"
    by (simp add: example_query)
  have b: "(if ''bm25'' = ''bm25''
            then calculate_bm25 example_calculator (preprocess_query ''Pantai  a bali'')
            else Inr Map.empty) = Inr [1 \<mapsto> 0, 5 \<mapsto> 1]"
    by (simp add: example_bm25)
  show ?thesis
    unfolding search_eq [OF q b]
    by (simp add: List.map_filter_simps emitted_def category_skip_def doc_similarity_def
        doc_data_of_def dict_get_def example_calculator_def example_index_def example_data_def
        sort_results_def make_result_def)
qed

lemma example_search_jaccard:
  "search example_calculator ''wisata pantai bali indah'' ''jaccard'' (Some ''WISATA'') (1 / 2) =
     Inr [make_result 1 [(''category'', ''Wisata''), (''title'', ''Pantai Bali'')] 1]"
proof -
  have q: "preprocess_query ''wisata pantai bali indah'' =
      [''wisata'', ''pantai'', ''bali'', ''indah'']"
    by (simp add: preprocess_query_def split_def lower_def lower_char_def is_space_def)
  have q0: "preprocess_query ''wisata pantai bali indah'' \<noteq> []"
    by (simp add: q)
  have b: "(if ''jaccard'' = ''bm25''
            then calculate_bm25 example_calculator (preprocess_query ''wisata pantai bali indah'')
            else Inr Map.empty) = Inr Map.empty"
    by simp
  have j: "calculate_jaccard [''wisata'', ''pantai'', ''bali'', ''indah'']
      [(''wisata'', 3), (''pantai'', 2), (''bali'', 1), (''indah'', 1)] = Inr 1"
    by (simp add: calculate_jaccard_def dict_keys_def int_truediv_def fl_one Let_def)
  have l: "lower ''Sejarah'' \<noteq> lower ''WISATA''" "lower ''Wisata'' = lower ''WISATA''"
    by (simp_all add: lower_def lower_char_def)
  show ?thesis
    unfolding search_eq [OF q0 b] q
    by (simp add: List.map_filter_simps emitted_def category_skip_def doc_similarity_def
        doc_data_of_def dict_get_def example_calculator_def example_index_def example_data_def
        sort_results_def j l)
qed

subsection \<open>Empty queries and empty filters\<close>

text \<open>
  C2. A query without tokens (after lowercasing, splitting at whitespace and dropping the
  tokens of length at most 1), in particular an empty or whitespace-only query, makes
  \<open>search\<close> return the empty list, whatever the calculator, the algorithm, the category
  filter and the threshold are: neither the BM25 scores nor the loop are evaluated.
\<close>

theorem search_empty_query:
  "(preprocess_query query = [] \<longrightarrow>
      search c query algorithm target_category min_similarity = Inr []) \<and>
   ((\<forall>ch \<in> set query. is_space ch) \<longrightarrow>
      search c query algorithm target_category min_similarity = Inr [])"
  using preprocess_query_whitespace [of query] by (simp add: search_def)

theorem search_empty_query_witness:
  "preprocess_query ''a B'' = [] \<and>
   search example_calculator ''a B'' ''bm25'' (Some ''Wisata'') 0 = Inr [] \<and>
   list_all is_space ''  '' \<and>
   search example_calculator ''  '' ''cosine'' None (1 / 2) = Inr []"
proof -
  have a: "preprocess_query ''a B'' = []"
    by (simp add: preprocess_query_def split_def lower_def lower_char_def is_space_def)
  have b: "\<forall>ch \<in> set ''  ''. is_space ch"
    by (simp add: is_space_def)
  show ?thesis
    using a b search_empty_query [of "''a B''" example_calculator "''bm25''" "Some ''Wisata''" 0]
      search_empty_query [of "''  ''" example_calculator "''cosine''" None "1 / 2"]
    by (simp add: list_all_iff)
qed

text \<open>
  C9. The empty string as category filter is not truthy, so the filter is not applied:
  \<open>search\<close> behaves exactly as with no filter, and no document is skipped for its
  category.
\<close>

theorem search_empty_category_filter:
  "search c query algorithm (Some []) min_similarity =
     search c query algorithm None min_similarity \<and>
   category_skip (Some []) doc_data = False"
proof -
  have e: "emitted c qw algorithm (Some []) min_similarity bm =
        emitted c qw algorithm None min_similarity bm" for qw bm
    by (rule ext) (simp add: emitted_def category_skip_def split: prod.splits)
  have "search c query algorithm (Some []) min_similarity =
     search c query algorithm None min_similarity"
    unfolding search_def search_loop_eq e by (rule refl)
  then show ?thesis
    by (simp add: category_skip_def)
qed

theorem search_empty_category_filter_witness:
  "search example_calculator ''Pantai  a bali'' ''bm25'' (Some []) 0 =
     Inr [make_result 5 [(''category'', ''Sejarah''), (''title'', ''Museum Nasional'')] 1,
          make_result 1 [(''category'', ''Wisata''), (''title'', ''Pantai Bali'')] 0]"
  using search_empty_category_filter [of example_calculator "''Pantai  a bali''" "''bm25''" 0]
  by (simp add: example_search_bm25)

subsection \<open>Order and filters\<close>

text \<open>
  C8. Whatever the query, algorithm, category filter and threshold, the list that
  \<open>search\<close> returns is in descending order of similarity: every result is at least as
  similar as each one after it, in particular as the next one. \<open>search\<close> does return
  a list unless the external BM25 model yields more scores than there are documents.
\<close>

theorem search_sorted_descending:
  "(search c query algorithm target_category min_similarity = Inr rs \<longrightarrow>
      sorted_wrt (\<lambda>a b. similarity a \<ge> similarity b) rs \<and>
      (\<forall>i. Suc i < length rs \<longrightarrow> similarity (rs ! i) \<ge> similarity (rs ! Suc i))) \<and>
   ((algorithm = ''bm25'' \<longrightarrow>
       length (bm25_model c (preprocess_query query)) \<le> length (bm25_id_map c)) \<longrightarrow>
      (\<exists>rs'. search c query algorithm target_category min_similarity = Inr rs'))"
proof -
  have "sorted_wrt (\<lambda>a b. similarity a \<ge> similarity b) rs"
    if "search c query algorithm target_category min_similarity = Inr rs"
    using that by (cases rule: search_Inr_cases) (simp_all add: sorted_sort_results)
  moreover have "\<forall>i. Suc i < length xs \<longrightarrow> similarity (xs ! i) \<ge> similarity (xs ! Suc i)"
    if "sorted_wrt (\<lambda>a b. similarity a \<ge> similarity b) xs" for xs :: "scored_result list"
    using that by (simp add: sorted_wrt_iff_nth_less)
  ultimately show ?thesis
    using search_returns [of algorithm c query target_category min_similarity] by blast
qed

theorem search_sorted_descending_witness:
  "search example_calculator ''Pantai  a bali'' ''bm25'' None 0 =
     Inr [make_result 5 [(''category'', ''Sejarah''), (''title'', ''Museum Nasional'')] 1,
          make_result 1 [(''category'', ''Wisata''), (''title'', ''Pantai Bali'')] 0] \<and>
   sorted_wrt (\<lambda>a b. similarity a \<ge> similarity b)
     [make_result 5 [(''category'', ''Sejarah''), (''title'', ''Museum Nasional'')] 1,
      make_result 1 [(''category'', ''Wisata''), (''title'', ''Pantai Bali'')] 0] \<and>
   length (bm25_model example_calculator (preprocess_query ''Pantai  a bali''))
     \<le> length (bm25_id_map example_calculator)"
proof -
  have len: "length (bm25_model example_calculator (preprocess_query ''Pantai  a bali''))
     \<le> length (bm25_id_map example_calculator)"
    by (simp add: example_calculator_def)
  show ?thesis
    using search_sorted_descending [of example_calculator "''Pantai  a bali''" "''bm25''" None 0
        "[make_result 5 [(''category'', ''Sejarah''), (''title'', ''Museum Nasional'')] 1,
          make_result 1 [(''category'', ''Wisata''), (''title'', ''Pantai Bali'')] 0]"]
      example_search_bm25 len
    by blast
qed

text \<open>
  C3. Every result that \<open>search\<close> returns passed both filters: its similarity is at least
  \<open>min_similarity\<close>, and when a category filter is given (a non-empty string: the code
  tests \<open>if target_category:\<close>) the stored category of its document, the empty string
  when the metadata or the field is missing, equals the filter after lowercasing both.
  So a document failing either test is not in the output.
\<close>

theorem search_results_pass_filters:
  assumes "search c query algorithm target_category min_similarity = Inr rs"
    and "r \<in> set rs"
  shows "similarity r \<ge> min_similarity \<and>
    (\<forall>t. target_category = Some t \<and> t \<noteq> [] \<longrightarrow>
       lower (dict_get (dict_get (combined_data c) (content_id r) []) ''category'' []) = lower t)"
  using assms(1)
proof (cases rule: search_Inr_cases)
  case empty
  with assms(2) show ?thesis by simp
next
  case (scored bm)
  with assms(2) obtain item where
    "emitted c (preprocess_query query) algorithm target_category min_similarity bm item = Some r"
    by (auto simp: set_sort_results set_map_filter)
  then obtain doc_id freq where
    e: "emitted c (preprocess_query query) algorithm target_category min_similarity bm
          (doc_id, freq) = Some r"
    by (cases item) auto
  note d = emitted_SomeD [OF e]
  from d(1) d(4) have "\<forall>t. target_category = Some t \<and> t \<noteq> [] \<longrightarrow>
       lower (dict_get (dict_get (combined_data c) (content_id r) []) ''category'' []) = lower t"
    by (auto simp: category_skip_def doc_data_of_def)
  with d(3) show ?thesis by simp
qed

theorem search_results_pass_filters_witness:
  "search example_calculator ''wisata pantai bali indah'' ''jaccard'' (Some ''WISATA'') (1 / 2) =
     Inr [make_result 1 [(''category'', ''Wisata''), (''title'', ''Pantai Bali'')] 1] \<and>
   similarity (make_result 1 [(''category'', ''Wisata''), (''title'', ''Pantai Bali'')] 1) \<ge> 1 / 2 \<and>
   lower (dict_get (dict_get (combined_data example_calculator) 1 []) ''category'' []) =
     lower ''WISATA''"
proof -
  let ?r = "make_result 1 [(''category'', ''Wisata''), (''title'', ''Pantai Bali'')] 1"
  have c: "content_id ?r = 1" by (simp add: make_result_def)
  show ?thesis
    using search_results_pass_filters [OF example_search_jaccard, of ?r] example_search_jaccard c
    by simp
qed

subsection \<open>Unknown algorithm selectors\<close>

lemma doc_similarity_unknown:
  assumes "algorithm \<notin> {''jaccard'', ''cosine'', ''bm25''}"
  shows "doc_similarity algorithm query_words bm25_scores doc_id doc_words_freq = Inr 0"
  using assms by (simp add: doc_similarity_def)

lemma emitted_unknown:
  assumes "algorithm \<notin> {''jaccard'', ''cosine'', ''bm25''}"
  shows "emitted c qw algorithm cat t bm (doc_id, freq) =
    (if \<not> category_skip cat (doc_data_of c doc_id) \<and> t \<le> 0
     then Some (make_result doc_id (doc_data_of c doc_id) 0) else None)"
  by (simp add: emitted_def doc_similarity_unknown [OF assms])

lemma map_filter_emitted_unknown:
  assumes "algorithm \<notin> {''jaccard'', ''cosine'', ''bm25''}"
  shows "List.map_filter (emitted c qw algorithm cat t bm) items =
    (if t \<le> 0
     then map (\<lambda>(doc_id, freq). make_result doc_id (doc_data_of c doc_id) 0)
            (filter (\<lambda>(doc_id, freq). \<not> category_skip cat (doc_data_of c doc_id)) items)
     else [])"
  by (induction items) (auto simp: List.map_filter_simps emitted_unknown [OF assms])

text \<open>
  C7. With an algorithm selector other than \<open>jaccard\<close>, \<open>cosine\<close> and \<open>bm25\<close> and a query
  that has tokens, \<open>search\<close> raises nothing: the similarity of every document is 0, so
  every result has similarity 0, and the results are the documents that pass the category
  filter, in the order of the index, when the threshold is at most 0, and none otherwise.
\<close>

theorem search_unknown_algorithm:
  assumes "algorithm \<notin> {''jaccard'', ''cosine'', ''bm25''}"
    and "preprocess_query query \<noteq> []"
  shows "\<exists>rs. search c query algorithm target_category min_similarity = Inr rs \<and>
    list_all (\<lambda>r. similarity r = 0) rs \<and>
    doc_similarity algorithm (preprocess_query query) bm25_scores doc_id doc_words_freq = Inr 0 \<and>
    rs = (if min_similarity \<le> 0
          then map (\<lambda>(doc_id, freq). make_result doc_id (doc_data_of c doc_id) 0)
                 (filter (\<lambda>(doc_id, freq). \<not> category_skip target_category (doc_data_of c doc_id))
                    (inverted_index c))
          else [])"
proof -
  let ?rs = "if min_similarity \<le> 0
          then map (\<lambda>(doc_id, freq). make_result doc_id (doc_data_of c doc_id) 0)
                 (filter (\<lambda>(doc_id, freq). \<not> category_skip target_category (doc_data_of c doc_id))
                    (inverted_index c))
          else []"
  have nb: "algorithm \<noteq> ''bm25''" using assms(1) by simp
  then have b: "(if algorithm = ''bm25'' then calculate_bm25 c (preprocess_query query)
          else Inr Map.empty) = Inr Map.empty"
    by simp
  have zero: "list_all (\<lambda>r. similarity r = 0) ?rs"
    by (auto simp: list_all_iff make_result_def)
  then have "sort_results ?rs = ?rs"
    by (intro sort_results_equal_keys) (simp only: list_all_iff)
  then have "search c query algorithm target_category min_similarity = Inr ?rs"
    unfolding search_eq [OF assms(2) b] map_filter_emitted_unknown [OF assms(1)] by simp
  with zero doc_similarity_unknown [OF assms(1)] show ?thesis by blast
qed

theorem search_unknown_algorithm_witness:
  "''tfidf'' \<notin> {''jaccard'', ''cosine'', ''bm25''} \<and>
   preprocess_query ''Pantai  a bali'' \<noteq> [] \<and>
   search example_calculator ''Pantai  a bali'' ''tfidf'' None 0 =
     Inr [make_result 1 [(''category'', ''Wisata''), (''title'', ''Pantai Bali'')] 0,
          make_result 5 [(''category'', ''Sejarah''), (''title'', ''Museum Nasional'')] 0]"
proof -
  have a: "''tfidf'' \<notin> {''jaccard'', ''cosine'', ''bm25''}" by simp
  have q: "preprocess_query ''Pantai  a bali'' \<noteq> []" by (simp add: example_query)
  have i: "inverted_index example_calculator = example_index"
    by (simp add: example_calculator_def)
  have d: "doc_data_of example_calculator 1 = [(''category'', ''Wisata''), (''title'', ''Pantai Bali'')]"
    "doc_data_of example_calculator 5 = [(''category'', ''Sejarah''), (''title'', ''Museum Nasional'')]"
    by (simp_all add: doc_data_of_def dict_get_def example_calculator_def example_data_def)
  from search_unknown_algorithm [OF a q, of example_calculator None 0]
  show ?thesis
    using a q by (simp add: i example_index_def category_skip_def d)
qed

subsection \<open>One result per document\<close>

text \<open>
  C10. For a query with tokens over an index with distinct document identifiers,
  \<open>search\<close> returns (unless the external BM25 model yields more scores than there are
  documents), and its results carry pairwise distinct identifiers, all of them keys of
  the index; a document of the index is among them exactly when it passes the category
  filter and its similarity is at least the threshold, and each result holds the
  similarity of its document.
\<close>

theorem search_one_result_per_document:
  assumes "preprocess_query query \<noteq> []"
    and "dict_wf (inverted_index c)"
    and "algorithm = ''bm25'' \<longrightarrow>
      length (bm25_model c (preprocess_query query)) \<le> length (bm25_id_map c)"
  shows "\<exists>rs bm. search c query algorithm target_category min_similarity = Inr rs \<and>
    (if algorithm = ''bm25'' then calculate_bm25 c (preprocess_query query)
     else Inr Map.empty) = Inr bm \<and>
    distinct (map content_id rs) \<and>
    set (map content_id rs) \<subseteq> set (dict_keys (inverted_index c)) \<and>
    (\<forall>(doc_id, freq) \<in> set (inverted_index c).
       doc_id \<in> set (map content_id rs) \<longleftrightarrow>
         \<not> category_skip target_category (doc_data_of c doc_id) \<and>
         (\<exists>sim. doc_similarity algorithm (preprocess_query query) bm doc_id freq = Inr sim \<and>
                min_similarity \<le> sim)) \<and>
    (\<forall>r \<in> set rs. \<exists>freq. (content_id r, freq) \<in> set (inverted_index c) \<and>
       doc_similarity algorithm (preprocess_query query) bm (content_id r) freq =
         Inr (similarity r))"
proof -
  let ?qw = "preprocess_query query"
  obtain bm where bm: "(if algorithm = ''bm25'' then calculate_bm25 c ?qw
          else Inr Map.empty) = Inr bm"
    using assms(3) calculate_bm25_returns by (cases "algorithm = ''bm25''") auto
  let ?e = "emitted c ?qw algorithm target_category min_similarity bm"
  let ?rs = "sort_results (List.map_filter ?e (inverted_index c))"
  have s: "search c query algorithm target_category min_similarity = Inr ?rs"
    by (rule search_eq [OF assms(1) bm])
  have dk: "distinct (map fst (inverted_index c))"
    using assms(2) by (simp add: dict_wf_def)
  have "mset (map content_id ?rs) = mset (map content_id (List.map_filter ?e (inverted_index c)))"
    by (simp add: mset_sort_results)
  then have "mset (map content_id ?rs) =
      mset (map fst (filter (\<lambda>item. ?e item \<noteq> None) (inverted_index c)))"
    by (simp only: map_content_id_emitted)
  moreover have "distinct (map fst (filter (\<lambda>item. ?e item \<noteq> None) (inverted_index c)))"
    using dk by (rule distinct_map_filter)
  ultimately have d: "distinct (map content_id ?rs)"
    by (metis mset_eq_imp_distinct_iff)
  have mem: "r \<in> set ?rs \<longleftrightarrow> (\<exists>item \<in> set (inverted_index c). ?e item = Some r)" for r
    by (simp add: set_sort_results set_map_filter)
  have sub: "set (map content_id ?rs) \<subseteq> set (dict_keys (inverted_index c))"
  proof
    fix doc_id
    assume "doc_id \<in> set (map content_id ?rs)"
    then obtain r item where "item \<in> set (inverted_index c)" "?e item = Some r"
      "content_id r = doc_id"
      by (auto simp: mem)
    then show "doc_id \<in> set (dict_keys (inverted_index c))"
      using content_id_emitted [of c ?qw algorithm target_category min_similarity bm item r]
      by (auto simp: dict_keys_def)
  qed
  have iff: "doc_id \<in> set (map content_id ?rs) \<longleftrightarrow>
         \<not> category_skip target_category (doc_data_of c doc_id) \<and>
         (\<exists>sim. doc_similarity algorithm ?qw bm doc_id freq = Inr sim \<and> min_similarity \<le> sim)"
    if item: "(doc_id, freq) \<in> set (inverted_index c)" for doc_id freq
  proof -
    have "doc_id \<in> set (map content_id ?rs) \<longleftrightarrow> (\<exists>r. ?e (doc_id, freq) = Some r)"
    proof
      assume "doc_id \<in> set (map content_id ?rs)"
      then obtain r item where r: "item \<in> set (inverted_index c)" "?e item = Some r"
        "content_id r = doc_id"
        by (auto simp: mem)
      then have "fst item = doc_id" using content_id_emitted by fastforce
      with r(1) item dk have "item = (doc_id, freq)"
        by (metis eq_key_imp_eq_value prod.collapse)
      with r(2) show "\<exists>r. ?e (doc_id, freq) = Some r" by blast
    next
      assume "\<exists>r. ?e (doc_id, freq) = Some r"
      then obtain r where r: "?e (doc_id, freq) = Some r" by blast
      with item have "r \<in> set ?rs" by (auto simp: mem)
      moreover have "content_id r = doc_id" using emitted_SomeD(4) [OF r] .
      ultimately show "doc_id \<in> set (map content_id ?rs)" by force
    qed
    then show ?thesis by (simp only: emitted_Some_iff)
  qed
  have sim: "\<exists>freq. (content_id r, freq) \<in> set (inverted_index c) \<and>
       doc_similarity algorithm ?qw bm (content_id r) freq = Inr (similarity r)"
    if "r \<in> set ?rs" for r
  proof -
    from that obtain doc_id freq where r: "(doc_id, freq) \<in> set (inverted_index c)"
      "?e (doc_id, freq) = Some r"
      by (auto simp: mem)
    from emitted_SomeD(2,4) [OF r(2)] r(1) show ?thesis by auto
  qed
  from s bm d sub iff sim show ?thesis
    by (intro exI [of _ ?rs] exI [of _ bm]) blast
qed

theorem search_one_result_per_document_witness:
  "preprocess_query ''Pantai  a bali'' \<noteq> [] \<and>
   dict_wf (inverted_index example_calculator) \<and>
   length (bm25_model example_calculator (preprocess_query ''Pantai  a bali''))
     \<le> length (bm25_id_map example_calculator) \<and>
   (\<exists>rs bm. search example_calculator ''Pantai  a bali'' ''bm25'' None (1 / 2) = Inr rs \<and>
      calculate_bm25 example_calculator (preprocess_query ''Pantai  a bali'') = Inr bm \<and>
      distinct (map content_id rs) \<and>
      (1 \<in> set (map content_id rs)) =
        (\<exists>sim. doc_similarity ''bm25'' (preprocess_query ''Pantai  a bali'') bm 1
                 [(''wisata'', 3), (''pantai'', 2), (''bali'', 1), (''indah'', 1)] = Inr sim \<and>
               1 / 2 \<le> sim))"
proof -
  have q: "preprocess_query ''Pantai  a bali'' \<noteq> []" by (simp add: example_query)
  have w: "dict_wf (inverted_index example_calculator)"
    by (simp add: dict_wf_def example_calculator_def example_index_def)
  have len: "length (bm25_model example_calculator (preprocess_query ''Pantai  a bali''))
     \<le> length (bm25_id_map example_calculator)"
    by (simp add: example_calculator_def)
  have len': "''bm25'' = ''bm25'' \<longrightarrow>
     length (bm25_model example_calculator (preprocess_query ''Pantai  a bali''))
     \<le> length (bm25_id_map example_calculator)"
    using len by simp
  have i: "(1, [(''wisata'', 3), (''pantai'', 2), (''bali'', 1), (''indah'', 1)])
      \<in> set (inverted_index example_calculator)"
    by (simp add: example_calculator_def example_index_def)
  have s: "\<not> category_skip None d" for d
    by (simp add: category_skip_def)
  from search_one_result_per_document [OF q w len', of None "1 / 2"]
  obtain rs bm where *: "search example_calculator ''Pantai  a bali'' ''bm25'' None (1 / 2) = Inr rs"
    "calculate_bm25 example_calculator (preprocess_query ''Pantai  a bali'') = Inr bm"
    "distinct (map content_id rs)"
    "\<forall>(doc_id, freq) \<in> set (inverted_index example_calculator).
       doc_id \<in> set (map content_id rs) \<longleftrightarrow>
         \<not> category_skip None (doc_data_of example_calculator doc_id) \<and>
         (\<exists>sim. doc_similarity ''bm25'' (preprocess_query ''Pantai  a bali'') bm doc_id freq = Inr sim \<and>
                1 / 2 \<le> sim)"
    by auto
  from *(4) i s have "(1 \<in> set (map content_id rs)) =
        (\<exists>sim. doc_similarity ''bm25'' (preprocess_query ''Pantai  a bali'') bm 1
                 [(''wisata'', 3), (''pantai'', 2), (''bali'', 1), (''indah'', 1)] = Inr sim \<and>
               1 / 2 \<le> sim)"
    by blast
  with q w len *(1,2,3) show ?thesis by blast
qed

end
